theory Spec2Isabelle
  imports Main "HOL-Library.Word" "HOL-Library.Sublist" "HOL-Library.Multiset"
begin

section \<open>Goroutines, channels, contexts and wait groups\<close>

text \<open>
  The program (\<^verbatim>\<open>pkg/pipeline/pipeline.go\<close>) builds pipelines out of goroutines
  that talk over unbuffered channels of \<^verbatim>\<open>int\<close>. The embedding has two layers.

  \<^item> Every goroutine body of the source becomes a small state machine (type \<open>worker\<close>):
    one control state for each point where the goroutine can block or act on shared
    state (a channel operation, a \<^verbatim>\<open>select\<close>, a deferred \<^verbatim>\<open>close\<close>,
    \<^verbatim>\<open>wg.Done()\<close>, \<^verbatim>\<open>wg.Wait()\<close>, the deferred \<^verbatim>\<open>cancel()\<close>), together with
    the local variables alive there. \<open>wstep\<close> gives the operations a state offers.
  \<^item> The runtime is a record \<open>sys\<close>: the pool of goroutines, the channels made so far
    and which of them are closed, the cancelled contexts, the wait group counters, and
    the panic that stopped the program, if any. An \<open>event\<close> is one atomic step of the
    runtime; \<open>step\<close> fires it. The scheduler's freedom is the choice of the next
    event, so a run of the program is a list of events (\<open>exec\<close>), and a statement
    about every interleaving is a statement about every such list.

  Go's \<^verbatim>\<open>int\<close> is taken at 64 bits (amd64, arm64): \<open>+\<close> and \<open>*\<close> wrap.
\<close>

type_synonym val = "64 word"
type_synonym chan = nat
type_synonym ctx = nat
type_synonym wgid = nat

datatype action =
    ASend chan val
  | ARecv chan val
  | ARecvClosed chan
  | AClose chan
  | ADone ctx
  | ACancel ctx
  | AWgDone wgid
  | AWgWait wgid

text \<open>
  Control states. The arguments are the variables the goroutine's closure captured
  (\<^verbatim>\<open>ctx\<close>, \<^verbatim>\<open>in\<close>, \<^verbatim>\<open>out\<close>, \<^verbatim>\<open>ch\<close>, \<^verbatim>\<open>wg\<close>) and its locals.
  \<^item> \<open>GenSelect ctx out n rest\<close>: \<^verbatim>\<open>generate\<close>'s goroutine in its \<^verbatim>\<open>select\<close>, about to
    send \<open>n\<close>, with \<open>rest\<close> still to range over.
  \<^item> \<open>PowRange ctx in out\<close>: \<^verbatim>\<open>power\<close>'s goroutine receiving in \<^verbatim>\<open>for n := range in\<close>.
  \<^item> \<open>PowSelect ctx in out n\<close>: the same goroutine in its \<^verbatim>\<open>select\<close>, holding \<open>n\<close>.
  \<^item> \<open>SumRange in out total\<close>: \<^verbatim>\<open>sum\<close>'s goroutine receiving in \<^verbatim>\<open>for n := range in\<close>.
  \<^item> \<open>SumSend out total\<close>: the same goroutine at \<^verbatim>\<open>out <- total\<close>.
  \<^item> \<open>SendRange ctx wg ch out\<close>: \<^verbatim>\<open>merge\<close>'s closure \<^verbatim>\<open>send\<close> receiving in
    \<^verbatim>\<open>for n := range ch\<close>.
  \<^item> \<open>SendSelect ctx wg ch out n\<close>: the same closure in its \<^verbatim>\<open>select\<close>, holding \<open>n\<close>.
  \<^item> \<open>WgDonePending wg\<close>: \<^verbatim>\<open>send\<close> has left its loop; its deferred \<^verbatim>\<open>wg.Done()\<close> runs next.
  \<^item> \<open>WgWaiting wg out\<close>: \<^verbatim>\<open>merge\<close>'s last goroutine at \<^verbatim>\<open>wg.Wait()\<close>.
  \<^item> \<open>ClosePending out\<close>: \<^verbatim>\<open>close(out)\<close> runs next and ends the goroutine (the deferred
    close of \<^verbatim>\<open>generate\<close> and \<^verbatim>\<open>power\<close>, the last statement of \<^verbatim>\<open>sum\<close> and of
    \<^verbatim>\<open>merge\<close>'s last goroutine).
  \<^item> \<open>MainRecv ctx out k\<close>: \<^verbatim>\<open>main\<close> at \<^verbatim>\<open><-out\<close> with \<open>k\<close> iterations of its loop left.
  \<^item> \<open>CancelPending ctx\<close>: \<^verbatim>\<open>main\<close> has left its loop; its deferred \<^verbatim>\<open>cancel()\<close> runs next.
  \<^item> \<open>Exited\<close>: the goroutine has returned.
\<close>

datatype worker =
    GenSelect ctx chan val "val list"
  | PowRange ctx chan chan
  | PowSelect ctx chan chan val
  | SumRange chan chan val
  | SumSend chan val
  | SendRange ctx wgid chan chan
  | SendSelect ctx wgid chan chan val
  | WgDonePending wgid
  | WgWaiting wgid chan
  | ClosePending chan
  | MainRecv ctx chan nat
  | CancelPending ctx
  | Exited

text \<open>The head of \<^verbatim>\<open>for _, n := range numbers\<close> in \<^verbatim>\<open>generate\<close>.\<close>

fun generate_loop :: "ctx \<Rightarrow> chan \<Rightarrow> val list \<Rightarrow> worker" where
  "generate_loop x out [] = ClosePending out"
| "generate_loop x out (n # rest) = GenSelect x out n rest"

text \<open>The head of \<^verbatim>\<open>for i := 0; i < 3; i++\<close> in \<^verbatim>\<open>main\<close>, with \<open>k = 3 - i\<close>.\<close>

fun main_loop :: "ctx \<Rightarrow> chan \<Rightarrow> nat \<Rightarrow> worker" where
  "main_loop x out 0 = CancelPending x"
| "main_loop x out (Suc k) = MainRecv x out (Suc k)"

text \<open>
  What a control state offers, and where the goroutine goes when the runtime takes the
  offer. A \<^verbatim>\<open>select\<close> offers both of its cases. A \<^verbatim>\<open>range\<close> over a channel offers a
  receive and the end of the loop on a closed channel; \<^verbatim>\<open>main\<close>'s plain \<^verbatim>\<open><-out\<close>
  yields the zero value on a closed channel and goes on with its loop.
\<close>

fun wstep :: "worker \<Rightarrow> action \<Rightarrow> worker option" where
  "wstep (GenSelect x out n rest) a =
     (case a of
        ASend c v \<Rightarrow> if c = out \<and> v = n then Some (generate_loop x out rest) else None
      | ADone y \<Rightarrow> if y = x then Some (ClosePending out) else None
      | _ \<Rightarrow> None)"
| "wstep (PowRange x inc out) a =
     (case a of
        ARecv c n \<Rightarrow> if c = inc then Some (PowSelect x inc out n) else None
      | ARecvClosed c \<Rightarrow> if c = inc then Some (ClosePending out) else None
      | _ \<Rightarrow> None)"
| "wstep (PowSelect x inc out n) a =
     (case a of
        ASend c v \<Rightarrow> if c = out \<and> v = n * n then Some (PowRange x inc out) else None
      | ADone y \<Rightarrow> if y = x then Some (ClosePending out) else None
      | _ \<Rightarrow> None)"
| "wstep (SumRange inc out tot) a =
     (case a of
        ARecv c n \<Rightarrow> if c = inc then Some (SumRange inc out (tot + n)) else None
      | ARecvClosed c \<Rightarrow> if c = inc then Some (SumSend out tot) else None
      | _ \<Rightarrow> None)"
| "wstep (SumSend out tot) a =
     (case a of
        ASend c v \<Rightarrow> if c = out \<and> v = tot then Some (ClosePending out) else None
      | _ \<Rightarrow> None)"
| "wstep (SendRange x w ch out) a =
     (case a of
        ARecv c n \<Rightarrow> if c = ch then Some (SendSelect x w ch out n) else None
      | ARecvClosed c \<Rightarrow> if c = ch then Some (WgDonePending w) else None
      | _ \<Rightarrow> None)"
| "wstep (SendSelect x w ch out n) a =
     (case a of
        ASend c v \<Rightarrow> if c = out \<and> v = n then Some (SendRange x w ch out) else None
      | ADone y \<Rightarrow> if y = x then Some (WgDonePending w) else None
      | _ \<Rightarrow> None)"
| "wstep (WgDonePending w) a =
     (case a of AWgDone w' \<Rightarrow> if w' = w then Some Exited else None | _ \<Rightarrow> None)"
| "wstep (WgWaiting w out) a =
     (case a of
        AWgWait w' \<Rightarrow> if w' = w then Some (ClosePending out) else None
      | _ \<Rightarrow> None)"
| "wstep (ClosePending out) a =
     (case a of AClose c \<Rightarrow> if c = out then Some Exited else None | _ \<Rightarrow> None)"
| "wstep (MainRecv x out k) a =
     (case a of
        ARecv c v \<Rightarrow> if c = out then Some (main_loop x out (k - 1)) else None
      | ARecvClosed c \<Rightarrow> if c = out then Some (main_loop x out (k - 1)) else None
      | _ \<Rightarrow> None)"
| "wstep (CancelPending x) a =
     (case a of ACancel y \<Rightarrow> if y = x then Some Exited else None | _ \<Rightarrow> None)"
| "wstep Exited a = None"

subsection \<open>The runtime\<close>

datatype error = CloseOfClosedChannel | SendOnClosedChannel | NegativeWaitGroupCounter

record sys =
  pool :: "worker list"
  nchans :: nat
  closed :: "chan set"
  nctxs :: nat
  cancelled :: "ctx set"
  wgs :: "int list"
  crashed :: "error option"

text \<open>
  Events. The numbers \<open>i\<close>, \<open>j\<close> are positions in the pool.
  \<^item> \<open>Comm i j c v\<close>: goroutine \<open>i\<close> hands \<open>v\<close> to goroutine \<open>j\<close> over the open channel \<open>c\<close>
    (an unbuffered channel: the send and the receive complete together).
  \<^item> \<open>SendClosed i c v\<close>: the send of goroutine \<open>i\<close> finds \<open>c\<close> closed and panics.
  \<^item> \<open>RecvClosed j c\<close>: the receive of goroutine \<open>j\<close> finds \<open>c\<close> closed.
  \<^item> \<open>Close i c\<close>: goroutine \<open>i\<close> closes \<open>c\<close>; closing a closed channel panics.
  \<^item> \<open>Done i x\<close>: goroutine \<open>i\<close> takes the case \<^verbatim>\<open><-ctx.Done()\<close>, ready once \<open>x\<close> is cancelled.
  \<^item> \<open>Cancel i x\<close>: goroutine \<open>i\<close> calls the cancel function of \<open>x\<close>.
  \<^item> \<open>WgDone i w\<close>: goroutine \<open>i\<close> runs \<^verbatim>\<open>wg.Done()\<close>; a negative counter panics.
  \<^item> \<open>WgWait i w\<close>: \<^verbatim>\<open>wg.Wait()\<close> of goroutine \<open>i\<close> returns, the counter being zero.
  \<^item> \<open>EnvSend j c v\<close>, \<open>EnvRecv i c v\<close>, \<open>EnvClose c\<close>, \<open>EnvCancel x\<close>: the same
    operations done by the caller of the stages, who is outside the pool.
\<close>

datatype event =
    Comm nat nat chan val
  | SendClosed nat chan val
  | RecvClosed nat chan
  | Close nat chan
  | Done nat ctx
  | Cancel nat ctx
  | WgDone nat wgid
  | WgWait nat wgid
  | EnvSend nat chan val
  | EnvRecv nat chan val
  | EnvClose chan
  | EnvCancel ctx

definition offer :: "nat \<Rightarrow> action \<Rightarrow> sys \<Rightarrow> worker option" where
  "offer i a s = (if i < length (pool s) then wstep (pool s ! i) a else None)"

definition upd :: "nat \<Rightarrow> worker \<Rightarrow> sys \<Rightarrow> sys" where
  "upd i w s = s\<lparr>pool := (pool s)[i := w]\<rparr>"

fun fire :: "event \<Rightarrow> sys \<Rightarrow> sys option" where
  "fire (Comm i j c v) s =
     (if i = j \<or> c \<in> closed s then None
      else case offer i (ASend c v) s of None \<Rightarrow> None
      | Some wi \<Rightarrow>
          (case offer j (ARecv c v) s of None \<Rightarrow> None
           | Some wj \<Rightarrow> Some (upd j wj (upd i wi s))))"
| "fire (SendClosed i c v) s =
     (if c \<notin> closed s then None
      else case offer i (ASend c v) s of None \<Rightarrow> None
      | Some wi \<Rightarrow> Some (s\<lparr>crashed := Some SendOnClosedChannel\<rparr>))"
| "fire (RecvClosed j c) s =
     (if c \<notin> closed s then None
      else case offer j (ARecvClosed c) s of None \<Rightarrow> None
      | Some wj \<Rightarrow> Some (upd j wj s))"
| "fire (Close i c) s =
     (case offer i (AClose c) s of None \<Rightarrow> None
      | Some wi \<Rightarrow>
          if c \<in> closed s then Some (s\<lparr>crashed := Some CloseOfClosedChannel\<rparr>)
          else Some (upd i wi (s\<lparr>closed := insert c (closed s)\<rparr>)))"
| "fire (Done i x) s =
     (if x \<notin> cancelled s then None
      else case offer i (ADone x) s of None \<Rightarrow> None
      | Some wi \<Rightarrow> Some (upd i wi s))"
| "fire (Cancel i x) s =
     (case offer i (ACancel x) s of None \<Rightarrow> None
      | Some wi \<Rightarrow> Some (upd i wi (s\<lparr>cancelled := insert x (cancelled s)\<rparr>)))"
| "fire (WgDone i w) s =
     (case offer i (AWgDone w) s of None \<Rightarrow> None
      | Some wi \<Rightarrow>
          if w < length (wgs s) then
            if wgs s ! w \<le> 0 then Some (s\<lparr>crashed := Some NegativeWaitGroupCounter\<rparr>)
            else Some (upd i wi (s\<lparr>wgs := (wgs s)[w := wgs s ! w - 1]\<rparr>))
          else None)"
| "fire (WgWait i w) s =
     (case offer i (AWgWait w) s of None \<Rightarrow> None
      | Some wi \<Rightarrow>
          if w < length (wgs s) \<and> wgs s ! w = 0 then Some (upd i wi s) else None)"
| "fire (EnvSend j c v) s =
     (if c \<in> closed s then None
      else case offer j (ARecv c v) s of None \<Rightarrow> None
      | Some wj \<Rightarrow> Some (upd j wj s))"
| "fire (EnvRecv i c v) s =
     (if c \<in> closed s then None
      else case offer i (ASend c v) s of None \<Rightarrow> None
      | Some wi \<Rightarrow> Some (upd i wi s))"
| "fire (EnvClose c) s =
     (if c \<in> closed s \<or> nchans s \<le> c then None
      else Some (s\<lparr>closed := insert c (closed s)\<rparr>))"
| "fire (EnvCancel x) s = Some (s\<lparr>cancelled := insert x (cancelled s)\<rparr>)"

text \<open>A panic stops the whole program: nothing fires afterwards.\<close>

definition step :: "event \<Rightarrow> sys \<Rightarrow> sys option" where
  "step e s = (if crashed s = None then fire e s else None)"

fun exec :: "event list \<Rightarrow> sys \<Rightarrow> sys option" where
  "exec [] s = Some s"
| "exec (e # es) s = (case step e s of None \<Rightarrow> None | Some s' \<Rightarrow> exec es s')"

subsection \<open>The stage constructors\<close>

text \<open>
  A constructor makes its outbound channel, starts its goroutines and returns the
  channel. It touches nothing the goroutines already running can see, so the model runs
  the constructors first and the goroutines from the pool they leave behind. A new
  goroutine enters the pool at the first control state of its body.
\<close>

definition boot :: sys where
  "boot = \<lparr>pool = [], nchans = 0, closed = {}, nctxs = 0, cancelled = {}, wgs = [],
     crashed = None\<rparr>"

definition make_chan :: "sys \<Rightarrow> chan \<times> sys" where
  "make_chan s = (nchans s, s\<lparr>nchans := Suc (nchans s)\<rparr>)"

definition with_cancel :: "sys \<Rightarrow> ctx \<times> sys" where
  "with_cancel s = (nctxs s, s\<lparr>nctxs := Suc (nctxs s)\<rparr>)"

definition go :: "worker \<Rightarrow> sys \<Rightarrow> sys" where
  "go w s = s\<lparr>pool := pool s @ [w]\<rparr>"

definition generate :: "ctx \<Rightarrow> val list \<Rightarrow> sys \<Rightarrow> chan \<times> sys" where
  "generate x numbers s =
     (case make_chan s of (out, s1) \<Rightarrow> (out, go (generate_loop x out numbers) s1))"

definition power_stage :: "ctx \<Rightarrow> chan \<Rightarrow> sys \<Rightarrow> chan \<times> sys" where
  "power_stage x inc s =
     (case make_chan s of (out, s1) \<Rightarrow> (out, go (PowRange x inc out) s1))"

definition sum_stage :: "chan \<Rightarrow> sys \<Rightarrow> chan \<times> sys" where
  "sum_stage inc s =
     (case make_chan s of (out, s1) \<Rightarrow> (out, go (SumRange inc out 0) s1))"

text \<open>
  \<^verbatim>\<open>merge\<close>: a fresh wait group, the channel, \<^verbatim>\<open>wg.Add(len(channels))\<close>, one \<^verbatim>\<open>send\<close>
  goroutine for each channel in order, and the goroutine that waits and closes.
\<close>

definition merge :: "ctx \<Rightarrow> chan list \<Rightarrow> sys \<Rightarrow> chan \<times> sys" where
  "merge x channels s =
     (let w = length (wgs s) in
      case make_chan s of (out, s1) \<Rightarrow>
        (out,
         go (WgWaiting w out)
           (foldl (\<lambda>t ch. go (SendRange x w ch out) t)
              (s1\<lparr>wgs := wgs s1 @ [int (length channels)]\<rparr>) channels)))"

text \<open>
  \<^verbatim>\<open>main\<close>: the context, the four constructor calls, and \<^verbatim>\<open>main\<close> itself as the
  goroutine that reads three values from \<^verbatim>\<open>out\<close> and then runs its deferred
  \<^verbatim>\<open>cancel()\<close>.
\<close>

definition main :: "sys \<Rightarrow> sys" where
  "main s =
     (case with_cancel s of (x, s1) \<Rightarrow>
      case generate x [15, 2, 9, 23, 91] s1 of (inc, s2) \<Rightarrow>
      case power_stage x inc s2 of (ch1, s3) \<Rightarrow>
      case power_stage x inc s3 of (ch2, s4) \<Rightarrow>
      case merge x [ch1, ch2] s4 of (out, s5) \<Rightarrow>
        go (MainRecv x out 3) s5)"

subsection \<open>What the caller saw\<close>

text \<open>The values the caller received from channel \<open>c\<close>, and those it sent on it.\<close>

fun recvd :: "chan \<Rightarrow> event list \<Rightarrow> val list" where
  "recvd c [] = []"
| "recvd c (EnvRecv i c' v # es) = (if c' = c then v # recvd c es else recvd c es)"
| "recvd c (e # es) = recvd c es"

fun fed :: "chan \<Rightarrow> event list \<Rightarrow> val list" where
  "fed c [] = []"
| "fed c (EnvSend j c' v # es) = (if c' = c then v # fed c es else fed c es)"
| "fed c (e # es) = fed c es"

text \<open>How often channel \<open>c\<close> was closed by a goroutine of the pool.\<close>

fun closes :: "chan \<Rightarrow> event list \<Rightarrow> nat" where
  "closes c [] = 0"
| "closes c (Close i c' # es) = (if c' = c then Suc (closes c es) else closes c es)"
| "closes c (e # es) = closes c es"

text \<open>A caller that makes \<open>k\<close> channels before it calls a stage.\<close>

fun make_chans :: "nat \<Rightarrow> sys \<Rightarrow> sys" where
  "make_chans 0 s = s"
| "make_chans (Suc k) s = make_chans k (snd (make_chan s))"

subsection \<open>Measures of a run\<close>

text \<open>
  All values the caller sent into the pool. A goroutine that has not returned counts
  as \<open>live\<close>, and \<open>running\<close> counts them. \<open>carried\<close> is the value a \<^verbatim>\<open>send\<close> closure
  holds between its receive and its send. \<open>saw_done x\<close>: some goroutine took the case
  \<^verbatim>\<open><-ctx.Done()\<close> of context \<open>x\<close>.
\<close>

fun fedall :: "event list \<Rightarrow> val list" where
  "fedall [] = []"
| "fedall (EnvSend j c v # es) = v # fedall es"
| "fedall (e # es) = fedall es"

definition live :: "worker \<Rightarrow> nat" where
  "live w = (if w = Exited then 0 else 1)"

definition running :: "worker list \<Rightarrow> nat" where
  "running fs = sum_list (map live fs)"

fun carried :: "worker \<Rightarrow> val multiset" where
  "carried (SendSelect x g ch out v) = {#v#}"
| "carried w = {#}"

definition cargo :: "worker list \<Rightarrow> val multiset" where
  "cargo ws = sum_list (map carried ws)"

definition saw_done :: "ctx \<Rightarrow> event list \<Rightarrow> bool" where
  "saw_done x sched \<longleftrightarrow> (\<exists>i. Done i x \<in> set sched)"

text \<open>
  \<open>solo e\<close> is the goroutine and the operation of an event that moves one goroutine.
  \<open>rank\<close> bounds the number of steps a goroutine can still take by itself; a receive
  may raise it (by at most 2), every other step lowers it. \<open>moves\<close> counts the events
  of a run that are steps of the pool, not of the caller.
\<close>

fun solo :: "event \<Rightarrow> (nat \<times> action) option" where
  "solo (RecvClosed j c) = Some (j, ARecvClosed c)"
| "solo (Close i c) = Some (i, AClose c)"
| "solo (Done i x) = Some (i, ADone x)"
| "solo (Cancel i x) = Some (i, ACancel x)"
| "solo (WgDone i g) = Some (i, AWgDone g)"
| "solo (WgWait i g) = Some (i, AWgWait g)"
| "solo (EnvSend j c v) = Some (j, ARecv c v)"
| "solo (EnvRecv i c v) = Some (i, ASend c v)"
| "solo e = None"

fun rank :: "worker \<Rightarrow> nat" where
  "rank (GenSelect x out n rest) = 3 * length rest + 4"
| "rank (PowRange x inc out) = 2"
| "rank (PowSelect x inc out n) = 4"
| "rank (SumRange inc out tot) = 3"
| "rank (SumSend out tot) = 2"
| "rank (SendRange x g ch out) = 2"
| "rank (SendSelect x g ch out n) = 3"
| "rank (WgDonePending g) = 1"
| "rank (WgWaiting g out) = 2"
| "rank (ClosePending out) = 1"
| "rank (MainRecv x out k) = k + 2"
| "rank (CancelPending x) = 1"
| "rank Exited = 0"

definition ranks :: "worker list \<Rightarrow> nat" where
  "ranks ws = sum_list (map rank ws)"

fun is_move :: "event \<Rightarrow> bool" where
  "is_move (EnvSend j c v) = False"
| "is_move (EnvClose c) = False"
| "is_move (EnvCancel x) = False"
| "is_move (SendClosed i c v) = False"
| "is_move e = True"

definition moves :: "event list \<Rightarrow> nat" where
  "moves sched = length (filter is_move sched)"

section \<open>Runs\<close>

lemma exec_append: "exec (es @ fs) s = (case exec es s of None \<Rightarrow> None | Some t \<Rightarrow> exec fs t)"
  by (induction es arbitrary: s) (auto split: option.splits)

lemma exec_snoc: "exec (es @ [e]) s = Some s' \<longleftrightarrow> (\<exists>t. exec es s = Some t \<and> step e t = Some s')"
  by (auto simp: exec_append split: option.splits)

lemma recvd_append: "recvd c (es @ fs) = recvd c es @ recvd c fs"
  by (induction c es rule: recvd.induct) auto

lemma fed_append: "fed c (es @ fs) = fed c es @ fed c fs"
  by (induction c es rule: fed.induct) auto


lemma closes_append: "closes c (es @ fs) = closes c es + closes c fs"
  by (induction c es rule: closes.induct) auto

lemma offer_single: "pool s = [w] \<Longrightarrow> offer i a s = (if i = 0 then wstep w a else None)"
  by (simp add: offer_def)

lemma upd_single: "pool s = [w] \<Longrightarrow> pool (upd 0 w' s) = [w']"
  by (simp add: upd_def)

lemma upd_fields [simp]: "closed (upd i w s) = closed s" "cancelled (upd i w s) = cancelled s"
  "crashed (upd i w s) = crashed s" "nchans (upd i w s) = nchans s" "wgs (upd i w s) = wgs s" "nctxs (upd i w s) = nctxs s"
  by (simp_all add: upd_def)


lemma upd_single_eq: "pool s = [w] \<Longrightarrow> upd 0 w' s = s\<lparr>pool := [w']\<rparr>"
  by (simp add: upd_def)

lemma wstep_ASend:
  "wstep w (ASend c v) = Some w' \<longleftrightarrow>
     (\<exists>x rest. w = GenSelect x c v rest \<and> w' = generate_loop x c rest) \<or>
     (\<exists>x inc n. w = PowSelect x inc c n \<and> v = n * n \<and> w' = PowRange x inc c) \<or>
     (w = SumSend c v \<and> w' = ClosePending c) \<or>
     (\<exists>x g ch. w = SendSelect x g ch c v \<and> w' = SendRange x g ch c)"
  by (cases w) auto

lemma wstep_ARecv:
  "wstep w (ARecv c v) = Some w' \<longleftrightarrow>
     (\<exists>x out. w = PowRange x c out \<and> w' = PowSelect x c out v) \<or>
     (\<exists>out tot. w = SumRange c out tot \<and> w' = SumRange c out (tot + v)) \<or>
     (\<exists>x g out. w = SendRange x g c out \<and> w' = SendSelect x g c out v) \<or>
     (\<exists>x k. w = MainRecv x c k \<and> w' = main_loop x c (k - 1))"
  by (cases w) auto

lemma wstep_ARecvClosed:
  "wstep w (ARecvClosed c) = Some w' \<longleftrightarrow>
     (\<exists>x out. w = PowRange x c out \<and> w' = ClosePending out) \<or>
     (\<exists>out tot. w = SumRange c out tot \<and> w' = SumSend out tot) \<or>
     (\<exists>x g out. w = SendRange x g c out \<and> w' = WgDonePending g) \<or>
     (\<exists>x k. w = MainRecv x c k \<and> w' = main_loop x c (k - 1))"
  by (cases w) auto

lemma wstep_AClose: "wstep w (AClose c) = Some w' \<longleftrightarrow> w = ClosePending c \<and> w' = Exited"
  by (cases w) auto

lemma wstep_ADone:
  "wstep w (ADone x) = Some w' \<longleftrightarrow>
     (\<exists>out n rest. w = GenSelect x out n rest \<and> w' = ClosePending out) \<or>
     (\<exists>inc out n. w = PowSelect x inc out n \<and> w' = ClosePending out) \<or>
     (\<exists>g ch out n. w = SendSelect x g ch out n \<and> w' = WgDonePending g)"
  by (cases w) auto

lemma wstep_ACancel: "wstep w (ACancel x) = Some w' \<longleftrightarrow> w = CancelPending x \<and> w' = Exited"
  by (cases w) auto

lemma wstep_AWgDone: "wstep w (AWgDone g) = Some w' \<longleftrightarrow> w = WgDonePending g \<and> w' = Exited"
  by (cases w) auto

lemma wstep_AWgWait:
  "wstep w (AWgWait g) = Some w' \<longleftrightarrow> (\<exists>out. w = WgWaiting g out \<and> w' = ClosePending out)"
  by (cases w) auto

lemmas wstep_inv = wstep_ASend wstep_ARecv wstep_ARecvClosed wstep_AClose wstep_ADone
  wstep_ACancel wstep_AWgDone wstep_AWgWait

lemma offer_Some: "offer i a s = Some w' \<longleftrightarrow> i < length (pool s) \<and> wstep (pool s ! i) a = Some w'"
  by (simp add: offer_def)

lemma pool_upd [simp]: "pool (upd i w s) = (pool s)[i := w]"
  by (simp add: upd_def)

lemma sum_list_map_update:
  fixes f :: "'a \<Rightarrow> 'b::comm_monoid_add"
  shows "i < length xs \<Longrightarrow> sum_list (map f (xs[i := y])) + f (xs ! i) = sum_list (map f xs) + f y"
proof (induction xs arbitrary: i)
  case Nil
  then show ?case by simp
next
  case (Cons a xs)
  show ?case
  proof (cases i)
    case 0
    then show ?thesis by (simp add: ac_simps)
  next
    case (Suc k)
    with Cons.prems have "k < length xs" by simp
    from Cons.IH[OF this] Suc show ?thesis
      by (simp add: ac_simps)
  qed
qed

lemma make_chans_boot: "make_chans n s = s\<lparr>nchans := nchans s + n\<rparr>"
  by (induction n arbitrary: s) (auto simp: make_chan_def)

lemma foldl_go: "foldl (\<lambda>t ch. go (f ch) t) s chs = s\<lparr>pool := pool s @ map f chs\<rparr>"
  by (induction chs arbitrary: s) (auto simp: go_def)

lemma fedall_append: "fedall (es @ fs) = fedall es @ fedall fs"
  by (induction es rule: fedall.induct) auto

lemma offer_append1:
  "pool s = fs @ [w] \<Longrightarrow>
   offer i a s = Some w' \<longleftrightarrow>
     i < length fs \<and> wstep (fs ! i) a = Some w' \<or> i = length fs \<and> wstep w a = Some w'"
  by (auto simp: offer_def nth_append)

lemma solo_Some:
  "solo e = Some (i, a) \<longleftrightarrow>
     (case a of
        ASend c v \<Rightarrow> e = EnvRecv i c v
      | ARecv c v \<Rightarrow> e = EnvSend i c v
      | ARecvClosed c \<Rightarrow> e = RecvClosed i c
      | AClose c \<Rightarrow> e = Close i c
      | ADone x \<Rightarrow> e = Done i x
      | ACancel x \<Rightarrow> e = Cancel i x
      | AWgDone g \<Rightarrow> e = WgDone i g
      | AWgWait g \<Rightarrow> e = WgWait i g)"
  by (cases e; cases a; auto)

lemma solo_None:
  "solo e = None \<longleftrightarrow>
     (\<exists>i j c v. e = Comm i j c v) \<or> (\<exists>i c v. e = SendClosed i c v) \<or> (\<exists>c. e = EnvClose c) \<or>
     (\<exists>x. e = EnvCancel x)"
  by (cases e) auto

lemma fire_solo:
  assumes "fire e s = Some s'" "crashed s = None" "crashed s' = None" "solo e = Some (i, a)"
  shows "\<exists>wi. offer i a s = Some wi \<and> pool s' = (pool s)[i := wi]"
  using assms by (cases e) (auto split: if_splits option.splits)

lemma fire_still:
  assumes "fire e s = Some s'" "solo e = None" "\<forall>i j c v. e \<noteq> Comm i j c v"
  shows "pool s' = pool s"
  using assms by (cases e) (auto split: if_splits option.splits)

lemma saw_done_snoc: "saw_done x (sched @ [e]) \<longleftrightarrow> saw_done x sched \<or> (\<exists>i. e = Done i x)"
  by (auto simp: saw_done_def)

lemma running_update: "i < length fs \<Longrightarrow> running (fs[i := w]) + live (fs ! i) = running fs + live w"
  unfolding running_def by (rule sum_list_map_update)

lemma running_start: "running (map (\<lambda>ch. SendRange x g ch out) chs) = length chs"
  unfolding running_def by (induction chs) (auto simp: live_def)

lemma live_sum_zero: "running fs = 0 \<Longrightarrow> i < length fs \<Longrightarrow> fs ! i = Exited"
  unfolding running_def by (induction fs arbitrary: i) (auto simp: live_def nth_Cons' split: if_splits)

lemma running_pos: "running fs \<noteq> 0 \<Longrightarrow> \<exists>i<length fs. fs ! i \<noteq> Exited"
  unfolding running_def
proof (induction fs)
  case Nil
  then show ?case by simp
next
  case (Cons a fs)
  show ?case
  proof (cases "a = Exited")
    case True
    with Cons obtain i where "i < length fs" "fs ! i \<noteq> Exited" by (auto simp: live_def)
    then have "Suc i < length (a # fs) \<and> (a # fs) ! Suc i \<noteq> Exited" by simp
    then show ?thesis by blast
  next
    case False
    then have "0 < length (a # fs) \<and> (a # fs) ! 0 \<noteq> Exited" by simp
    then show ?thesis by blast
  qed
qed

lemma cargo_update: "i < length ws \<Longrightarrow> cargo (ws[i := w]) + carried (ws ! i) = cargo ws + carried w"
  unfolding cargo_def by (rule sum_list_map_update)

lemma cargo_start: "cargo (map (\<lambda>ch. SendRange x g ch out) chs @ [WgWaiting g out]) = {#}"
  unfolding cargo_def by (induction chs) auto

lemma cargo_none: "running fs = 0 \<Longrightarrow> cargo (fs @ [w]) = carried w"
  unfolding cargo_def running_def
  by (induction fs) (auto simp: live_def split: if_splits)

lemma moves_snoc: "moves (sched @ [e]) = moves sched + (if is_move e then 1 else 0)"
  by (simp add: moves_def)

lemma ranks_update: "i < length ws \<Longrightarrow> ranks (ws[i := w]) + rank (ws ! i) = ranks ws + rank w"
  unfolding ranks_def by (rule sum_list_map_update)

lemma ranks_start: "ranks (map (\<lambda>ch. SendRange x g ch out) chs @ [WgWaiting g out]) = 2 * length chs + 2"
  unfolding ranks_def by (induction chs) auto

lemma cancel_run:
  "crashed s = None \<Longrightarrow> exec (map EnvCancel ys) s = Some (s\<lparr>cancelled := set ys \<union> cancelled s\<rparr>)"
proof (induction ys arbitrary: s)
  case Nil
  then show ?case by simp
next
  case (Cons y ys)
  have "step (EnvCancel y) s = Some (s\<lparr>cancelled := insert y (cancelled s)\<rparr>)"
    using Cons.prems by (simp add: step_def)
  moreover have "exec (map EnvCancel ys) (s\<lparr>cancelled := insert y (cancelled s)\<rparr>)
      = Some (s\<lparr>cancelled := insert y (cancelled s)\<rparr>\<lparr>cancelled := set ys \<union> cancelled (s\<lparr>cancelled := insert y (cancelled s)\<rparr>)\<rparr>)"
    by (rule Cons.IH) (use Cons.prems in simp)
  ultimately show ?case by simp
qed

section \<open>The source stage: \<^verbatim>\<open>generate\<close>\<close>

text \<open>
  \<^verbatim>\<open>generate\<close> called in the empty runtime: its goroutine is goroutine 0 and its
  outbound channel is channel 0. The caller holds the receiving end only
  (\<^verbatim>\<open><-chan int\<close>), so it can receive and cancel, never close.
\<close>

lemma generate_boot: "generate x ns boot = (0, \<lparr>pool = [generate_loop x 0 ns], nchans = 1, closed = {}, nctxs = 0, cancelled = {}, wgs = [], crashed = None\<rparr>)"
  by (simp add: generate_def make_chan_def go_def boot_def)

definition gen_inv :: "ctx \<Rightarrow> val list \<Rightarrow> event list \<Rightarrow> sys \<Rightarrow> bool" where
  "gen_inv x ns sched s \<longleftrightarrow>
     crashed s = None \<and>
     (\<exists>rest. recvd 0 sched @ rest = ns \<and>
        ((\<exists>n tl. rest = n # tl \<and> pool s = [GenSelect x 0 n tl]) \<and> 0 \<notin> closed s
            \<and> Done 0 x \<notin> set sched \<or>
         pool s = [ClosePending 0] \<and> 0 \<notin> closed s \<and> (rest = [] \<or> Done 0 x \<in> set sched) \<or>
         pool s = [Exited] \<and> 0 \<in> closed s \<and> (rest = [] \<or> Done 0 x \<in> set sched)))"

lemma gen_invE:
  assumes "gen_inv x ns sched s"
  obtains (run) n tl where "crashed s = None" "recvd 0 sched @ n # tl = ns"
      "pool s = [GenSelect x 0 n tl]" "0 \<notin> closed s" "Done 0 x \<notin> set sched"
    | (cl) rest where "crashed s = None" "recvd 0 sched @ rest = ns"
      "pool s = [ClosePending 0]" "0 \<notin> closed s" "rest = [] \<or> Done 0 x \<in> set sched"
    | (ex) rest where "crashed s = None" "recvd 0 sched @ rest = ns"
      "pool s = [Exited]" "0 \<in> closed s" "rest = [] \<or> Done 0 x \<in> set sched"
  using assms unfolding gen_inv_def by (elim conjE disjE exE) auto

lemma gen_inv_step:
  assumes "gen_inv x ns sched s" "step e s = Some s'" "e \<noteq> EnvClose 0"
  shows "gen_inv x ns (sched @ [e]) s'"
  using assms(1)
proof (cases rule: gen_invE)
  case (run n tl)
  from assms(2) run(1) have f: "fire e s = Some s'" by (simp add: step_def)
  show ?thesis
  proof (cases tl)
    case Nil
    with f run assms(3) show ?thesis
      by (cases e; auto simp: offer_single upd_single recvd_append gen_inv_def split: if_splits action.splits)
  next
    case (Cons m tl')
    with f run assms(3) show ?thesis
      by (cases e; auto simp: offer_single upd_single recvd_append gen_inv_def split: if_splits action.splits)
  qed
next
  case (cl rest)
  from assms(2) cl(1) have f: "fire e s = Some s'" by (simp add: step_def)
  with cl assms(3) show ?thesis
    by (cases e; auto simp: offer_single upd_single recvd_append gen_inv_def split: if_splits action.splits)
next
  case (ex rest)
  from assms(2) ex(1) have f: "fire e s = Some s'" by (simp add: step_def)
  with ex assms(3) show ?thesis
    by (cases e; auto simp: offer_single upd_single recvd_append gen_inv_def split: if_splits action.splits)
qed

lemma gen_inv_exec:
  "exec sched (snd (generate x ns boot)) = Some s \<Longrightarrow> EnvClose 0 \<notin> set sched \<Longrightarrow> gen_inv x ns sched s"
proof (induction sched arbitrary: s rule: rev_induct)
  case Nil
  then show ?case by (cases ns) (auto simp: generate_boot gen_inv_def)
next
  case (snoc e es)
  then show ?case by (auto simp: exec_snoc intro: gen_inv_step)
qed

text \<open>Once the goroutine has left its loop, nothing is sent any more.\<close>

lemma stopped_step:
  assumes "pool s = [ClosePending c] \<or> pool s = [WgDonePending g] \<or> pool s = [Exited]"
    and "step e s = Some s'"
  shows "(pool s' = [ClosePending c] \<or> pool s' = [WgDonePending g] \<or> pool s' = [Exited])
    \<and> recvd c' [e] = [] \<and> fed c' [e] = []"
proof -
  from assms(2) have f: "fire e s = Some s'" by (simp add: step_def split: if_splits)
  from assms(1) f show ?thesis
    by (cases e; auto simp: offer_single upd_single split: if_splits action.splits option.splits)
qed

lemma stopped_exec:
  assumes "pool s = [ClosePending c] \<or> pool s = [WgDonePending g] \<or> pool s = [Exited]"
  shows "exec es s = Some s' \<Longrightarrow> recvd c' es = [] \<and> fed c' es = []"
  using assms
proof (induction es arbitrary: s)
  case Nil
  then show ?case by simp
next
  case (Cons e es)
  from Cons.prems(1) obtain t where t: "step e s = Some t" "exec es t = Some s'"
    by (auto split: option.splits)
  from stopped_step[OF Cons.prems(2) t(1), of c'] Cons.IH[OF t(2)]
  have "recvd c' [e] = []" "recvd c' es = []" "fed c' [e] = []" "fed c' es = []" by auto
  then show ?case using recvd_append[of c' "[e]" es] fed_append[of c' "[e]" es] by simp
qed

lemma generate_full_run:
  "pool s = [generate_loop x out ns] \<Longrightarrow> out \<notin> closed s \<Longrightarrow> crashed s = None \<Longrightarrow>
   exec (map (EnvRecv 0 out) ns @ [Close 0 out]) s = Some (s\<lparr>pool := [Exited], closed := insert out (closed s)\<rparr>)"
proof (induction ns arbitrary: s)
  case Nil
  then show ?case by (simp add: step_def offer_single upd_single_eq)
next
  case (Cons n ns)
  have "step (EnvRecv 0 out n) s = Some (s\<lparr>pool := [generate_loop x out ns]\<rparr>)"
    using Cons.prems by (simp add: step_def offer_single upd_single_eq)
  moreover have "exec (map (EnvRecv 0 out) ns @ [Close 0 out]) (s\<lparr>pool := [generate_loop x out ns]\<rparr>)
     = Some (s\<lparr>pool := [generate_loop x out ns]\<rparr>\<lparr>pool := [Exited], closed := insert out (closed (s\<lparr>pool := [generate_loop x out ns]\<rparr>))\<rparr>)"
    by (rule Cons.IH) (use Cons.prems in simp_all)
  ultimately show ?case by simp
qed

text \<open>
  Claim C4. For every input sequence \<open>ns\<close>, every context \<open>x\<close> and every run of
  \<^verbatim>\<open>generate(ctx, ns...)\<close> against a caller that does not close the channel:
  \<^item> no panic occurs;
  \<^item> what the caller has received from the outbound channel is a prefix of \<open>ns\<close>, in
    order;
  \<^item> the goroutine has returned exactly when the channel is closed (the deferred close
    runs on every exit path);
  \<^item> if it returned without ever taking the \<^verbatim>\<open><-ctx.Done()\<close> case, the caller received
    all of \<open>ns\<close>;
  \<^item> a goroutine that has not returned can close or hand over the next value, and once
    the context is cancelled it can leave through the cancellation case or close
    without the caller;
  \<^item> in the \<^verbatim>\<open>select\<close> the send hands over the next value of \<open>ns\<close>, no other, and moves
    on to the rest; and once the context is cancelled the cancellation case takes the
    goroutine from its \<^verbatim>\<open>select\<close>, whatever it was about to send, to the deferred close;
  \<^item> the deferred close closes the channel and ends the goroutine;
  \<^item> once the cancellation case was taken the goroutine is at its deferred close or has
    returned, and nothing was sent after it;
  \<^item> the run in which the caller receives every value of \<open>ns\<close> in turn, followed by the
    close, exists.
\<close>

theorem generate_emits_in_order_then_closes:
  assumes "exec sched (snd (generate x ns boot)) = Some s"
    and "EnvClose (fst (generate x ns boot)) \<notin> set sched"
  shows "crashed s = None
    \<and> prefix (recvd (fst (generate x ns boot)) sched) ns
    \<and> (pool s = [Exited]) = (fst (generate x ns boot) \<in> closed s)
    \<and> (pool s = [Exited] \<and> Done 0 x \<notin> set sched \<longrightarrow> recvd (fst (generate x ns boot)) sched = ns)
    \<and> (pool s \<noteq> [Exited] \<longrightarrow>
          step (Close 0 (fst (generate x ns boot))) s \<noteq> None
        \<or> step (EnvRecv 0 (fst (generate x ns boot)) (ns ! length (recvd (fst (generate x ns boot)) sched))) s \<noteq> None)
    \<and> (pool s \<noteq> [Exited] \<and> x \<in> cancelled s \<longrightarrow>
          step (Close 0 (fst (generate x ns boot))) s \<noteq> None \<or> step (Done 0 x) s \<noteq> None)
    \<and> (pool s \<noteq> [Exited] \<and> pool s \<noteq> [ClosePending (fst (generate x ns boot))] \<longrightarrow>
          step (EnvRecv 0 (fst (generate x ns boot)) (ns ! length (recvd (fst (generate x ns boot)) sched))) s
            = Some (s\<lparr>pool := [generate_loop x (fst (generate x ns boot))
                (drop (Suc (length (recvd (fst (generate x ns boot)) sched))) ns)]\<rparr>)
        \<and> (\<forall>v. step (EnvRecv 0 (fst (generate x ns boot)) v) s \<noteq> None \<longrightarrow>
              v = ns ! length (recvd (fst (generate x ns boot)) sched))
        \<and> (x \<in> cancelled s \<longrightarrow>
              step (Done 0 x) s = Some (s\<lparr>pool := [ClosePending (fst (generate x ns boot))]\<rparr>)))
    \<and> (pool s = [ClosePending (fst (generate x ns boot))] \<longrightarrow>
          step (Close 0 (fst (generate x ns boot))) s
            = Some (s\<lparr>pool := [Exited], closed := insert (fst (generate x ns boot)) (closed s)\<rparr>))
    \<and> (Done 0 x \<in> set sched \<longrightarrow>
          (pool s = [ClosePending (fst (generate x ns boot))] \<or> pool s = [Exited])
        \<and> (\<forall>pre post. sched = pre @ Done 0 x # post \<longrightarrow>
              recvd (fst (generate x ns boot)) post = []))
    \<and> (\<exists>t. exec (map (EnvRecv 0 (fst (generate x ns boot))) ns @ [Close 0 (fst (generate x ns boot))])
              (snd (generate x ns boot)) = Some t
           \<and> pool t = [Exited] \<and> closed t = {fst (generate x ns boot)} \<and> crashed t = None)"
proof -
  have e: "exec sched (snd (generate x ns boot)) = Some s" "EnvClose 0 \<notin> set sched"
    using assms by (simp_all add: generate_boot)
  have inv: "gen_inv x ns sched s" using e by (rule gen_inv_exec)
  have c: "crashed s = None" using inv by (simp add: gen_inv_def)
  have 1: "prefix (recvd 0 sched) ns" using inv by (auto simp: gen_inv_def prefix_def)
  have 2: "(pool s = [Exited]) = (0 \<in> closed s)" using inv by (cases rule: gen_invE) auto
  have 3: "pool s = [Exited] \<and> Done 0 x \<notin> set sched \<longrightarrow> recvd 0 sched = ns"
    using inv by (cases rule: gen_invE) auto
  have 4: "pool s \<noteq> [Exited] \<longrightarrow> step (Close 0 0) s \<noteq> None
        \<or> step (EnvRecv 0 0 (ns ! length (recvd 0 sched))) s \<noteq> None"
    using inv by (cases rule: gen_invE) (auto simp: step_def offer_single nth_append)
  have 5: "pool s \<noteq> [Exited] \<and> x \<in> cancelled s \<longrightarrow>
          step (Close 0 0) s \<noteq> None \<or> step (Done 0 x) s \<noteq> None"
    using inv by (cases rule: gen_invE) (auto simp: step_def offer_single)
  have 6: "pool s \<noteq> [Exited] \<and> pool s \<noteq> [ClosePending 0] \<longrightarrow>
          step (EnvRecv 0 0 (ns ! length (recvd 0 sched))) s
            = Some (s\<lparr>pool := [generate_loop x 0 (drop (Suc (length (recvd 0 sched))) ns)]\<rparr>)
        \<and> (\<forall>v. step (EnvRecv 0 0 v) s \<noteq> None \<longrightarrow> v = ns ! length (recvd 0 sched))
        \<and> (x \<in> cancelled s \<longrightarrow> step (Done 0 x) s = Some (s\<lparr>pool := [ClosePending 0]\<rparr>))"
    using inv
  proof (cases rule: gen_invE)
    case (run n tl)
    have "ns ! length (recvd 0 sched) = n" "drop (Suc (length (recvd 0 sched))) ns = tl"
      using run(2) by (auto simp: nth_append)
    with run show ?thesis
      by (auto simp: step_def offer_single upd_single_eq split: if_splits)
  qed auto
  have 7: "pool s = [ClosePending 0] \<longrightarrow>
          step (Close 0 0) s = Some (s\<lparr>pool := [Exited], closed := insert 0 (closed s)\<rparr>)"
    using inv by (cases rule: gen_invE) (auto simp: step_def offer_single upd_def)
  have 8: "Done 0 x \<in> set sched \<longrightarrow>
          (pool s = [ClosePending 0] \<or> pool s = [Exited])
        \<and> (\<forall>pre post. sched = pre @ Done 0 x # post \<longrightarrow> recvd 0 post = [])"
  proof (intro impI conjI allI)
    assume "Done 0 x \<in> set sched"
    with inv show "pool s = [ClosePending 0] \<or> pool s = [Exited]"
      by (cases rule: gen_invE) auto
  next
    fix pre post assume sp: "sched = pre @ Done 0 x # post"
    with e obtain t where t: "exec (pre @ [Done 0 x]) (snd (generate x ns boot)) = Some t"
      "exec post t = Some s"
      by (auto simp: exec_append split: option.splits)
    from sp e(2) have "EnvClose 0 \<notin> set (pre @ [Done 0 x])" by auto
    from gen_inv_exec[OF t(1) this]
    have "pool t = [ClosePending 0] \<or> pool t = [WgDonePending 0] \<or> pool t = [Exited]"
      by (cases rule: gen_invE) auto
    from stopped_exec[OF this t(2)] show "recvd 0 post = []" by simp
  qed
  have 9: "\<exists>t. exec (map (EnvRecv 0 0) ns @ [Close 0 0]) (snd (generate x ns boot)) = Some t
           \<and> pool t = [Exited] \<and> closed t = {0} \<and> crashed t = None"
    by (subst generate_full_run[where x = x]) (simp_all add: generate_boot)
  from c 1 2 3 4 5 6 7 8 9 show ?thesis by (simp add: generate_boot)
qed

text \<open>
  The early exit of C4 on the input 15, 2, 9: one value is received, the context is
  cancelled, the goroutine takes the cancellation case and closes.
\<close>

theorem generate_emits_in_order_then_closes_witness:
  "exec [EnvRecv 0 0 15, EnvCancel 0, Done 0 0, Close 0 0] (snd (generate 0 [15, 2, 9] boot))
     = Some \<lparr>pool = [Exited], nchans = 1, closed = {0}, nctxs = 0, cancelled = {0}, wgs = [],
         crashed = None\<rparr>
   \<and> EnvClose (fst (generate 0 [15, 2, 9] boot)) \<notin> set [EnvRecv 0 0 15, EnvCancel 0, Done 0 0, Close 0 0]
   \<and> prefix (recvd (fst (generate 0 [15, 2, 9] boot)) [EnvRecv 0 0 15, EnvCancel 0, Done 0 0, Close 0 0])
       [15, 2, 9]
   \<and> fst (generate 0 [15, 2, 9] boot) \<in> closed \<lparr>pool = [Exited], nchans = 1, closed = {0}, nctxs = 0, cancelled = {0}, wgs = [],
         crashed = None\<rparr>"
proof -
  have e: "exec [EnvRecv 0 0 15, EnvCancel 0, Done 0 0, Close 0 0] (snd (generate 0 [15, 2, 9] boot))
     = Some \<lparr>pool = [Exited], nchans = 1, closed = {0}, nctxs = 0, cancelled = {0}, wgs = [],
         crashed = None\<rparr>"
    by (simp add: generate_boot step_def offer_def upd_def)
  have n: "EnvClose (fst (generate 0 [15, 2, 9] boot)) \<notin> set [EnvRecv 0 0 15, EnvCancel 0, Done 0 0, Close 0 0]"
    by simp
  from generate_emits_in_order_then_closes[OF e n] e n show ?thesis by simp
qed

section \<open>The sink stage: \<^verbatim>\<open>sum\<close>\<close>

text \<open>
  The caller makes the inbound channel (channel 0) and calls \<^verbatim>\<open>sum(in)\<close>, which makes
  the result channel (channel 1) and starts goroutine 0. The caller sends on the
  inbound channel and closes it, and holds the receiving end of the result channel.
\<close>

lemma sum_boot:
  "sum_stage 0 (snd (make_chan boot)) = (1, \<lparr>pool = [SumRange 0 1 0], nchans = 2, closed = {}, nctxs = 0, cancelled = {}, wgs = [], crashed = None\<rparr>)"
  by (simp add: sum_stage_def make_chan_def go_def boot_def)

definition sum_inv :: "event list \<Rightarrow> sys \<Rightarrow> bool" where
  "sum_inv sched s \<longleftrightarrow>
     crashed s = None \<and> nchans s = 2 \<and>
     (pool s = [SumRange 0 1 (sum_list (fed 0 sched))] \<and> 1 \<notin> closed s \<and> recvd 1 sched = [] \<or>
      pool s = [SumSend 1 (sum_list (fed 0 sched))] \<and> 0 \<in> closed s \<and> 1 \<notin> closed s \<and> recvd 1 sched = [] \<or>
      pool s = [ClosePending 1] \<and> 0 \<in> closed s \<and> 1 \<notin> closed s \<and> recvd 1 sched = [sum_list (fed 0 sched)] \<or>
      pool s = [Exited] \<and> 0 \<in> closed s \<and> 1 \<in> closed s \<and> recvd 1 sched = [sum_list (fed 0 sched)])"

lemma sum_inv_step:
  assumes "sum_inv sched s" "step e s = Some s'" "e \<noteq> EnvClose 1"
  shows "sum_inv (sched @ [e]) s'"
proof -
  from assms(1) have c: "crashed s = None" "nchans s = 2" by (auto simp: sum_inv_def)
  from assms(2) c have f: "fire e s = Some s'" by (simp add: step_def)
  from assms(1) consider
      (range) "pool s = [SumRange 0 1 (sum_list (fed 0 sched))]" "1 \<notin> closed s" "recvd 1 sched = []"
    | (send) "pool s = [SumSend 1 (sum_list (fed 0 sched))]" "0 \<in> closed s" "1 \<notin> closed s" "recvd 1 sched = []"
    | (cl) "pool s = [ClosePending 1]" "0 \<in> closed s" "1 \<notin> closed s" "recvd 1 sched = [sum_list (fed 0 sched)]"
    | (ex) "pool s = [Exited]" "0 \<in> closed s" "1 \<in> closed s" "recvd 1 sched = [sum_list (fed 0 sched)]"
    by (auto simp: sum_inv_def)
  then show ?thesis
  proof cases
    case range
    with f c assms(3) show ?thesis
      by (cases e; auto simp: offer_single upd_single recvd_append fed_append sum_inv_def split: if_splits action.splits)
  next
    case send
    with f c assms(3) show ?thesis
      by (cases e; auto simp: offer_single upd_single recvd_append fed_append sum_inv_def split: if_splits action.splits)
  next
    case cl
    with f c assms(3) show ?thesis
      by (cases e; auto simp: offer_single upd_single recvd_append fed_append sum_inv_def split: if_splits action.splits)
  next
    case ex
    with f c assms(3) show ?thesis
      by (cases e; auto simp: offer_single upd_single recvd_append fed_append sum_inv_def split: if_splits action.splits)
  qed
qed

lemma sum_inv_exec:
  "exec sched (snd (sum_stage 0 (snd (make_chan boot)))) = Some s \<Longrightarrow> EnvClose 1 \<notin> set sched \<Longrightarrow> sum_inv sched s"
proof (induction sched arbitrary: s rule: rev_induct)
  case Nil
  then show ?case by (auto simp: sum_boot sum_inv_def)
next
  case (snoc e es)
  then show ?case by (auto simp: exec_snoc intro: sum_inv_step)
qed

lemma sum_feed_run:
  "pool s = [SumRange inc out tot] \<Longrightarrow> inc \<notin> closed s \<Longrightarrow> crashed s = None \<Longrightarrow>
   exec (map (EnvSend 0 inc) vs) s = Some (s\<lparr>pool := [SumRange inc out (tot + sum_list vs)]\<rparr>)"
proof (induction vs arbitrary: s tot)
  case Nil
  then show ?case by simp
next
  case (Cons v vs)
  have "step (EnvSend 0 inc v) s = Some (s\<lparr>pool := [SumRange inc out (tot + v)]\<rparr>)"
    using Cons.prems by (simp add: step_def offer_single upd_single_eq)
  moreover have "exec (map (EnvSend 0 inc) vs) (s\<lparr>pool := [SumRange inc out (tot + v)]\<rparr>)
     = Some (s\<lparr>pool := [SumRange inc out (tot + v)]\<rparr>\<lparr>pool := [SumRange inc out (tot + v + sum_list vs)]\<rparr>)"
    by (rule Cons.IH) (use Cons.prems in simp_all)
  ultimately show ?case by (simp add: add.assoc)
qed

lemma sum_full_run:
  "exec (map (EnvSend 0 0) vs @ [EnvClose 0, RecvClosed 0 0, EnvRecv 0 1 (sum_list vs), Close 0 1])
     (snd (sum_stage 0 (snd (make_chan boot))))
   = Some \<lparr>pool = [Exited], nchans = 2, closed = {1, 0}, nctxs = 0, cancelled = {}, wgs = [], crashed = None\<rparr>"
  by (simp add: exec_append sum_boot sum_feed_run[where out = 1 and tot = 0] step_def offer_def upd_def)

text \<open>
  Claim C5. In every run of \<^verbatim>\<open>sum(in)\<close> against a caller that feeds and closes the
  inbound channel: no panic occurs; the caller has received from the result channel
  either nothing yet or exactly one value, the total of all values fed (Go's \<^verbatim>\<open>+\<close> on
  \<^verbatim>\<open>int\<close>), and that only after the inbound channel was closed; the goroutine has
  returned exactly when the result channel is closed, and then the one value has been
  delivered; while the inbound channel is open the goroutine takes any value; once it
  is closed the goroutine can always move on (see the close, hand over the total,
  close the result channel); and for every sequence \<open>vs\<close> the run that feeds \<open>vs\<close>,
  closes, delivers \<open>sum_list vs\<close> and closes the result channel exists.
\<close>

theorem sum_sends_total_once_then_closes:
  assumes "exec sched (snd (sum_stage 0 (snd (make_chan boot)))) = Some s"
    and "EnvClose (fst (sum_stage 0 (snd (make_chan boot)))) \<notin> set sched"
  shows "crashed s = None
    \<and> (recvd (fst (sum_stage 0 (snd (make_chan boot)))) sched = []
       \<or> recvd (fst (sum_stage 0 (snd (make_chan boot)))) sched = [sum_list (fed 0 sched)] \<and> 0 \<in> closed s)
    \<and> (pool s = [Exited]) = (fst (sum_stage 0 (snd (make_chan boot))) \<in> closed s)
    \<and> (pool s = [Exited] \<longrightarrow>
          recvd (fst (sum_stage 0 (snd (make_chan boot)))) sched = [sum_list (fed 0 sched)])
    \<and> (0 \<notin> closed s \<longrightarrow> (\<forall>v. step (EnvSend 0 0 v) s \<noteq> None))
    \<and> (0 \<in> closed s \<and> pool s \<noteq> [Exited] \<longrightarrow>
          step (RecvClosed 0 0) s \<noteq> None
        \<or> step (EnvRecv 0 (fst (sum_stage 0 (snd (make_chan boot)))) (sum_list (fed 0 sched))) s \<noteq> None
        \<or> step (Close 0 (fst (sum_stage 0 (snd (make_chan boot))))) s \<noteq> None)
    \<and> (\<forall>vs. \<exists>t. exec (map (EnvSend 0 0) vs @ [EnvClose 0, RecvClosed 0 0,
                EnvRecv 0 (fst (sum_stage 0 (snd (make_chan boot)))) (sum_list vs),
                Close 0 (fst (sum_stage 0 (snd (make_chan boot))))])
              (snd (sum_stage 0 (snd (make_chan boot)))) = Some t
           \<and> pool t = [Exited] \<and> fst (sum_stage 0 (snd (make_chan boot))) \<in> closed t \<and> crashed t = None)"
proof -
  have inv: "sum_inv sched s"
    using assms by (intro sum_inv_exec) (simp_all add: sum_boot)
  then have c: "crashed s = None" by (simp add: sum_inv_def)
  from inv have d:
      "pool s = [SumRange 0 1 (sum_list (fed 0 sched))] \<and> 1 \<notin> closed s \<and> recvd 1 sched = [] \<or>
      pool s = [SumSend 1 (sum_list (fed 0 sched))] \<and> 0 \<in> closed s \<and> 1 \<notin> closed s \<and> recvd 1 sched = [] \<or>
      pool s = [ClosePending 1] \<and> 0 \<in> closed s \<and> 1 \<notin> closed s \<and> recvd 1 sched = [sum_list (fed 0 sched)] \<or>
      pool s = [Exited] \<and> 0 \<in> closed s \<and> 1 \<in> closed s \<and> recvd 1 sched = [sum_list (fed 0 sched)]"
    by (simp add: sum_inv_def)
  have 1: "recvd 1 sched = [] \<or> recvd 1 sched = [sum_list (fed 0 sched)] \<and> 0 \<in> closed s"
    using d by auto
  have 2: "(pool s = [Exited]) = (1 \<in> closed s)" using d by auto
  have 3: "pool s = [Exited] \<longrightarrow> recvd 1 sched = [sum_list (fed 0 sched)]" using d by auto
  have 4: "0 \<notin> closed s \<longrightarrow> (\<forall>v. step (EnvSend 0 0 v) s \<noteq> None)"
    using d c by (auto simp: step_def offer_single)
  have 5: "0 \<in> closed s \<and> pool s \<noteq> [Exited] \<longrightarrow>
          step (RecvClosed 0 0) s \<noteq> None
        \<or> step (EnvRecv 0 1 (sum_list (fed 0 sched))) s \<noteq> None
        \<or> step (Close 0 1) s \<noteq> None"
    using d c by (auto simp: step_def offer_single)
  have 6: "\<forall>vs. \<exists>t. exec (map (EnvSend 0 0) vs @ [EnvClose 0, RecvClosed 0 0, EnvRecv 0 1 (sum_list vs), Close 0 1])
              (snd (sum_stage 0 (snd (make_chan boot)))) = Some t
           \<and> pool t = [Exited] \<and> 1 \<in> closed t \<and> crashed t = None"
    using sum_full_run by simp
  from c 1 2 3 4 5 6 show ?thesis by (simp add: sum_boot)
qed

text \<open>C5 on the values 15 and 2: the caller receives 17, once.\<close>

theorem sum_sends_total_once_then_closes_witness:
  "exec [EnvSend 0 0 15, EnvSend 0 0 2, EnvClose 0, RecvClosed 0 0, EnvRecv 0 1 17, Close 0 1]
      (snd (sum_stage 0 (snd (make_chan boot))))
     = Some \<lparr>pool = [Exited], nchans = 2, closed = {1, 0}, nctxs = 0, cancelled = {}, wgs = [],
         crashed = None\<rparr>
   \<and> EnvClose (fst (sum_stage 0 (snd (make_chan boot))))
       \<notin> set [EnvSend 0 0 15, EnvSend 0 0 2, EnvClose 0, RecvClosed 0 0, EnvRecv 0 1 17, Close 0 1]
   \<and> recvd (fst (sum_stage 0 (snd (make_chan boot))))
        [EnvSend 0 0 15, EnvSend 0 0 2, EnvClose 0, RecvClosed 0 0, EnvRecv 0 1 17, Close 0 1] = [17]"
proof -
  have e: "exec [EnvSend 0 0 15, EnvSend 0 0 2, EnvClose 0, RecvClosed 0 0, EnvRecv 0 1 17, Close 0 1]
      (snd (sum_stage 0 (snd (make_chan boot))))
     = Some \<lparr>pool = [Exited], nchans = 2, closed = {1, 0}, nctxs = 0, cancelled = {}, wgs = [],
         crashed = None\<rparr>"
    by (simp add: sum_boot step_def offer_def upd_def)
  have n: "EnvClose (fst (sum_stage 0 (snd (make_chan boot))))
       \<notin> set [EnvSend 0 0 15, EnvSend 0 0 2, EnvClose 0, RecvClosed 0 0, EnvRecv 0 1 17, Close 0 1]"
    by (simp add: sum_boot)
  from sum_sends_total_once_then_closes[OF e n] e n show ?thesis by (simp add: sum_boot)
qed

text \<open>
  Claim C9. In every run in which the caller feeds nothing: the caller has received
  from the result channel either nothing yet or exactly the value 0, and that only
  after the inbound channel was closed; the result channel is closed only after the 0
  was delivered; once the inbound channel is closed the goroutine can always move on;
  and the run that closes the inbound channel, delivers 0 and closes the result
  channel exists.
\<close>

theorem sum_of_nothing_is_zero:
  assumes "exec sched (snd (sum_stage 0 (snd (make_chan boot)))) = Some s"
    and "EnvClose (fst (sum_stage 0 (snd (make_chan boot)))) \<notin> set sched"
    and "fed 0 sched = []"
  shows "crashed s = None
    \<and> (recvd (fst (sum_stage 0 (snd (make_chan boot)))) sched = []
       \<or> recvd (fst (sum_stage 0 (snd (make_chan boot)))) sched = [0] \<and> 0 \<in> closed s)
    \<and> (pool s = [Exited]) = (fst (sum_stage 0 (snd (make_chan boot))) \<in> closed s)
    \<and> (pool s = [Exited] \<longrightarrow> recvd (fst (sum_stage 0 (snd (make_chan boot)))) sched = [0])
    \<and> (0 \<in> closed s \<and> pool s \<noteq> [Exited] \<longrightarrow>
          step (RecvClosed 0 0) s \<noteq> None
        \<or> step (EnvRecv 0 (fst (sum_stage 0 (snd (make_chan boot)))) 0) s \<noteq> None
        \<or> step (Close 0 (fst (sum_stage 0 (snd (make_chan boot))))) s \<noteq> None)
    \<and> (\<exists>t. exec [EnvClose 0, RecvClosed 0 0,
                EnvRecv 0 (fst (sum_stage 0 (snd (make_chan boot)))) 0,
                Close 0 (fst (sum_stage 0 (snd (make_chan boot))))]
              (snd (sum_stage 0 (snd (make_chan boot)))) = Some t
           \<and> pool t = [Exited] \<and> fst (sum_stage 0 (snd (make_chan boot))) \<in> closed t \<and> crashed t = None)"
proof -
  have inv: "sum_inv sched s"
    using assms by (intro sum_inv_exec) (simp_all add: sum_boot)
  then have c: "crashed s = None" by (simp add: sum_inv_def)
  from inv assms(3) have d:
      "pool s = [SumRange 0 1 0] \<and> 1 \<notin> closed s \<and> recvd 1 sched = [] \<or>
      pool s = [SumSend 1 0] \<and> 0 \<in> closed s \<and> 1 \<notin> closed s \<and> recvd 1 sched = [] \<or>
      pool s = [ClosePending 1] \<and> 0 \<in> closed s \<and> 1 \<notin> closed s \<and> recvd 1 sched = [0] \<or>
      pool s = [Exited] \<and> 0 \<in> closed s \<and> 1 \<in> closed s \<and> recvd 1 sched = [0]"
    by (simp add: sum_inv_def)
  have 1: "recvd 1 sched = [] \<or> recvd 1 sched = [0] \<and> 0 \<in> closed s"
    using d by auto
  have 2: "(pool s = [Exited]) = (1 \<in> closed s)" using d by auto
  have 3: "pool s = [Exited] \<longrightarrow> recvd 1 sched = [0]" using d by auto
  have 5: "0 \<in> closed s \<and> pool s \<noteq> [Exited] \<longrightarrow>
          step (RecvClosed 0 0) s \<noteq> None
        \<or> step (EnvRecv 0 1 0) s \<noteq> None
        \<or> step (Close 0 1) s \<noteq> None"
    using d c by (auto simp: step_def offer_single)
  have 6: "\<exists>t. exec [EnvClose 0, RecvClosed 0 0, EnvRecv 0 1 0, Close 0 1]
              (snd (sum_stage 0 (snd (make_chan boot)))) = Some t
           \<and> pool t = [Exited] \<and> 1 \<in> closed t \<and> crashed t = None"
    using sum_full_run[of "[]"] by simp
  from c 1 2 3 5 6 show ?thesis by (simp add: sum_boot)
qed

text \<open>C9 on the run that closes the inbound channel at once.\<close>

theorem sum_of_nothing_is_zero_witness:
  "exec [EnvClose 0, RecvClosed 0 0, EnvRecv 0 1 0, Close 0 1]
      (snd (sum_stage 0 (snd (make_chan boot))))
     = Some \<lparr>pool = [Exited], nchans = 2, closed = {1, 0}, nctxs = 0, cancelled = {}, wgs = [],
         crashed = None\<rparr>
   \<and> EnvClose (fst (sum_stage 0 (snd (make_chan boot))))
       \<notin> set [EnvClose 0, RecvClosed 0 0, EnvRecv 0 1 0, Close 0 1]
   \<and> fed 0 [EnvClose 0, RecvClosed 0 0, EnvRecv 0 1 0, Close 0 1] = []
   \<and> recvd (fst (sum_stage 0 (snd (make_chan boot))))
        [EnvClose 0, RecvClosed 0 0, EnvRecv 0 1 0, Close 0 1] = [0]"
proof -
  have e: "exec [EnvClose 0, RecvClosed 0 0, EnvRecv 0 1 0, Close 0 1]
      (snd (sum_stage 0 (snd (make_chan boot))))
     = Some \<lparr>pool = [Exited], nchans = 2, closed = {1, 0}, nctxs = 0, cancelled = {}, wgs = [],
         crashed = None\<rparr>"
    by (simp add: sum_boot step_def offer_def upd_def)
  have n: "EnvClose (fst (sum_stage 0 (snd (make_chan boot))))
       \<notin> set [EnvClose 0, RecvClosed 0 0, EnvRecv 0 1 0, Close 0 1]"
    by (simp add: sum_boot)
  have f: "fed 0 [EnvClose 0, RecvClosed 0 0, EnvRecv 0 1 0, Close 0 1] = []" by simp
  from sum_of_nothing_is_zero[OF e n f] e n f show ?thesis by (simp add: sum_boot)
qed

section \<open>The transform stage: \<^verbatim>\<open>power\<close>\<close>

text \<open>
  The caller makes the inbound channel (channel 0) and calls \<^verbatim>\<open>power(ctx, in)\<close>, which
  makes the outbound channel (channel 1) and starts goroutine 0.
\<close>

lemma power_boot:
  "power_stage x 0 (snd (make_chan boot)) = (1, \<lparr>pool = [PowRange x 0 1], nchans = 2, closed = {}, nctxs = 0, cancelled = {}, wgs = [], crashed = None\<rparr>)"
  by (simp add: power_stage_def make_chan_def go_def boot_def)

definition pow_fin :: "ctx \<Rightarrow> event list \<Rightarrow> sys \<Rightarrow> bool" where
  "pow_fin x sched s \<longleftrightarrow>
     Done 0 x \<notin> set sched \<and> 0 \<in> closed s \<and> recvd 1 sched = map (\<lambda>n. n * n) (fed 0 sched) \<or>
     Done 0 x \<in> set sched \<and> (\<exists>n vs. fed 0 sched = vs @ [n] \<and> recvd 1 sched = map (\<lambda>n. n * n) vs)"

definition pow_inv :: "ctx \<Rightarrow> event list \<Rightarrow> sys \<Rightarrow> bool" where
  "pow_inv x sched s \<longleftrightarrow>
     crashed s = None \<and> nchans s = 2 \<and>
     (pool s = [PowRange x 0 1] \<and> 1 \<notin> closed s \<and> Done 0 x \<notin> set sched
          \<and> recvd 1 sched = map (\<lambda>n. n * n) (fed 0 sched) \<or>
      (\<exists>n vs. pool s = [PowSelect x 0 1 n] \<and> 1 \<notin> closed s \<and> Done 0 x \<notin> set sched
          \<and> fed 0 sched = vs @ [n] \<and> recvd 1 sched = map (\<lambda>n. n * n) vs) \<or>
      pool s = [ClosePending 1] \<and> 1 \<notin> closed s \<and> pow_fin x sched s \<or>
      pool s = [Exited] \<and> 1 \<in> closed s \<and> pow_fin x sched s)"

lemma pow_invE:
  assumes "pow_inv x sched s"
  obtains (range) "crashed s = None" "pool s = [PowRange x 0 1]" "1 \<notin> closed s"
      "Done 0 x \<notin> set sched" "recvd 1 sched = map (\<lambda>n. n * n) (fed 0 sched)"
    | (sel) n vs where "crashed s = None" "pool s = [PowSelect x 0 1 n]" "1 \<notin> closed s"
      "Done 0 x \<notin> set sched" "fed 0 sched = vs @ [n]" "recvd 1 sched = map (\<lambda>n. n * n) vs"
    | (cl) "crashed s = None" "pool s = [ClosePending 1]" "1 \<notin> closed s" "pow_fin x sched s"
    | (ex) "crashed s = None" "pool s = [Exited]" "1 \<in> closed s" "pow_fin x sched s"
  using assms unfolding pow_inv_def by (elim conjE disjE exE) auto

lemma pow_inv_step:
  assumes "pow_inv x sched s" "step e s = Some s'" "e \<noteq> EnvClose 1"
  shows "pow_inv x (sched @ [e]) s'"
proof -
  from assms(1) have c: "crashed s = None" "nchans s = 2" by (auto simp: pow_inv_def)
  from assms(2) c have f: "fire e s = Some s'" by (simp add: step_def)
  from assms(1) show ?thesis
  proof (cases rule: pow_invE)
    case range
    with f c assms(3) show ?thesis
      by (cases e; auto simp: offer_single upd_single recvd_append fed_append pow_inv_def pow_fin_def split: if_splits action.splits)
  next
    case (sel n vs)
    with f c assms(3) show ?thesis
      by (cases e; auto simp: offer_single upd_single recvd_append fed_append pow_inv_def pow_fin_def split: if_splits action.splits)
  next
    case cl
    with f c assms(3) show ?thesis
      by (cases e; auto simp: offer_single upd_single recvd_append fed_append pow_inv_def pow_fin_def split: if_splits action.splits)
  next
    case ex
    with f c assms(3) show ?thesis
      by (cases e; auto simp: offer_single upd_single recvd_append fed_append pow_inv_def pow_fin_def split: if_splits action.splits)
  qed
qed

lemma pow_inv_exec:
  "exec sched (snd (power_stage x 0 (snd (make_chan boot)))) = Some s \<Longrightarrow> EnvClose 1 \<notin> set sched \<Longrightarrow> pow_inv x sched s"
proof (induction sched arbitrary: s rule: rev_induct)
  case Nil
  then show ?case by (auto simp: power_boot pow_inv_def)
next
  case (snoc e es)
  then show ?case by (auto simp: exec_snoc intro: pow_inv_step)
qed

lemma power_feed_run:
  "pool s = [PowRange x inc out] \<Longrightarrow> inc \<notin> closed s \<Longrightarrow> out \<notin> closed s \<Longrightarrow> crashed s = None \<Longrightarrow>
   exec (concat (map (\<lambda>v. [EnvSend 0 inc v, EnvRecv 0 out (v * v)]) vs)) s = Some s"
proof (induction vs)
  case Nil
  then show ?case by simp
next
  case (Cons v vs)
  have 1: "step (EnvSend 0 inc v) s = Some (s\<lparr>pool := [PowSelect x inc out v]\<rparr>)"
    using Cons.prems by (simp add: step_def offer_single upd_single_eq)
  have 2: "step (EnvRecv 0 out (v * v)) (s\<lparr>pool := [PowSelect x inc out v]\<rparr>) = Some s"
    using Cons.prems by (simp add: step_def offer_def upd_def)
  from 1 2 Cons show ?case by simp
qed

lemma power_full_run:
  "exec (concat (map (\<lambda>v. [EnvSend 0 0 v, EnvRecv 0 1 (v * v)]) vs) @ [EnvClose 0, RecvClosed 0 0, Close 0 1])
     (snd (power_stage x 0 (snd (make_chan boot))))
   = Some \<lparr>pool = [Exited], nchans = 2, closed = {1, 0}, nctxs = 0, cancelled = {}, wgs = [], crashed = None\<rparr>"
  by (simp add: exec_append power_boot power_feed_run[where x = x] step_def offer_def upd_def)

text \<open>
  Claim C6, as the code has it. \<^verbatim>\<open>power\<close> has no function parameter: the transform is
  \<^verbatim>\<open>n * n\<close> (Go's \<^verbatim>\<open>*\<close> on \<^verbatim>\<open>int\<close>). In every run of \<^verbatim>\<open>power(ctx, in)\<close> against a
  caller that feeds the inbound channel and receives from the outbound one:
  \<^item> no panic occurs;
  \<^item> the \<open>i\<close>-th value received from the outbound channel is the square of the \<open>i\<close>-th
    value fed;
  \<^item> the goroutine holds at most one value;
  \<^item> it has returned exactly when the outbound channel is closed;
  \<^item> if it returned without taking the \<^verbatim>\<open><-ctx.Done()\<close> case, the inbound channel is
    closed and every value fed came out squared;
  \<^item> a goroutine that has not returned offers a receive, a send or a close;
  \<^item> while it holds no value and is in its loop, it takes any value from an open inbound
    channel and holds it, and leaves the loop for the deferred close on a closed one;
  \<^item> while it holds a value, its send hands over the square of that value, nothing
    else, and returns to the receive; and once the context is cancelled its
    cancellation case takes it to the deferred close;
  \<^item> the deferred close closes the outbound channel and ends the goroutine;
  \<^item> once the cancellation case was taken, the goroutine is at its deferred close or
    has returned, the value it held then was not sent (one more value was fed than
    came out), and nothing was received or sent after it;
  \<^item> for every \<open>vs\<close> the run that feeds each value and receives its square, closes the
    inbound channel and closes the outbound one exists.
\<close>

theorem power_squares_in_order:
  assumes "exec sched (snd (power_stage x 0 (snd (make_chan boot)))) = Some s"
    and "EnvClose (fst (power_stage x 0 (snd (make_chan boot)))) \<notin> set sched"
  shows "crashed s = None
    \<and> recvd (fst (power_stage x 0 (snd (make_chan boot)))) sched
        = map (\<lambda>n. n * n) (take (length (recvd (fst (power_stage x 0 (snd (make_chan boot)))) sched)) (fed 0 sched))
    \<and> length (fed 0 sched) \<le> Suc (length (recvd (fst (power_stage x 0 (snd (make_chan boot)))) sched))
    \<and> (pool s = [Exited]) = ((fst (power_stage x 0 (snd (make_chan boot)))) \<in> closed s)
    \<and> (pool s = [Exited] \<and> Done 0 x \<notin> set sched \<longrightarrow>
          0 \<in> closed s
        \<and> recvd (fst (power_stage x 0 (snd (make_chan boot)))) sched = map (\<lambda>n. n * n) (fed 0 sched))
    \<and> (pool s \<noteq> [Exited] \<longrightarrow>
          step (RecvClosed 0 0) s \<noteq> None
        \<or> (\<forall>v. step (EnvSend 0 0 v) s \<noteq> None)
        \<or> (\<exists>n. step (EnvRecv 0 (fst (power_stage x 0 (snd (make_chan boot)))) (n * n)) s \<noteq> None)
        \<or> step (Close 0 (fst (power_stage x 0 (snd (make_chan boot))))) s \<noteq> None)
    \<and> (pool s \<noteq> [Exited] \<and> pool s \<noteq> [ClosePending (fst (power_stage x 0 (snd (make_chan boot))))]
          \<and> length (fed 0 sched) = length (recvd (fst (power_stage x 0 (snd (make_chan boot)))) sched) \<longrightarrow>
          (0 \<notin> closed s \<longrightarrow> (\<forall>v. step (EnvSend 0 0 v) s = Some (s\<lparr>pool := [PowSelect x 0 (fst (power_stage x 0 (snd (make_chan boot)))) v]\<rparr>)))
        \<and> (0 \<in> closed s \<longrightarrow> step (RecvClosed 0 0) s = Some (s\<lparr>pool := [ClosePending (fst (power_stage x 0 (snd (make_chan boot))))]\<rparr>)))
    \<and> (Done 0 x \<notin> set sched \<and> length (fed 0 sched) = Suc (length (recvd (fst (power_stage x 0 (snd (make_chan boot)))) sched)) \<longrightarrow>
          step (EnvRecv 0 (fst (power_stage x 0 (snd (make_chan boot)))) (last (fed 0 sched) * last (fed 0 sched))) s
            = Some (s\<lparr>pool := [PowRange x 0 (fst (power_stage x 0 (snd (make_chan boot))))]\<rparr>)
        \<and> (\<forall>v. step (EnvRecv 0 (fst (power_stage x 0 (snd (make_chan boot)))) v) s \<noteq> None \<longrightarrow> v = last (fed 0 sched) * last (fed 0 sched))
        \<and> (x \<in> cancelled s \<longrightarrow> step (Done 0 x) s = Some (s\<lparr>pool := [ClosePending (fst (power_stage x 0 (snd (make_chan boot))))]\<rparr>)))
    \<and> (pool s = [ClosePending (fst (power_stage x 0 (snd (make_chan boot))))] \<longrightarrow>
          step (Close 0 (fst (power_stage x 0 (snd (make_chan boot))))) s = Some (s\<lparr>pool := [Exited], closed := insert (fst (power_stage x 0 (snd (make_chan boot)))) (closed s)\<rparr>))
    \<and> (Done 0 x \<in> set sched \<longrightarrow>
          (pool s = [ClosePending (fst (power_stage x 0 (snd (make_chan boot))))] \<or> pool s = [Exited])
        \<and> length (fed 0 sched) = Suc (length (recvd (fst (power_stage x 0 (snd (make_chan boot)))) sched))
        \<and> (\<forall>pre post. sched = pre @ Done 0 x # post \<longrightarrow> recvd (fst (power_stage x 0 (snd (make_chan boot)))) post = [] \<and> fed 0 post = []))
    \<and> (\<forall>vs. \<exists>t. exec (concat (map (\<lambda>v. [EnvSend 0 0 v, EnvRecv 0 (fst (power_stage x 0 (snd (make_chan boot)))) (v * v)]) vs)
                @ [EnvClose 0, RecvClosed 0 0, Close 0 (fst (power_stage x 0 (snd (make_chan boot))))])
              (snd (power_stage x 0 (snd (make_chan boot)))) = Some t
           \<and> pool t = [Exited] \<and> (fst (power_stage x 0 (snd (make_chan boot)))) \<in> closed t
           \<and> crashed t = None)"
proof -
  have e: "exec sched (snd (power_stage x 0 (snd (make_chan boot)))) = Some s" "EnvClose 1 \<notin> set sched"
    using assms by (simp_all add: power_boot)
  have inv: "pow_inv x sched s" using e by (rule pow_inv_exec)
  then have c: "crashed s = None" by (simp add: pow_inv_def)
  have 1: "recvd 1 sched = map (\<lambda>n. n * n) (take (length (recvd 1 sched)) (fed 0 sched))"
    using inv by (cases rule: pow_invE) (auto simp: pow_fin_def)
  have 2: "length (fed 0 sched) \<le> Suc (length (recvd 1 sched))"
    using inv by (cases rule: pow_invE) (auto simp: pow_fin_def)
  have 3: "(pool s = [Exited]) = (1 \<in> closed s)" using inv by (cases rule: pow_invE) auto
  have 4: "pool s = [Exited] \<and> Done 0 x \<notin> set sched \<longrightarrow>
          0 \<in> closed s \<and> recvd 1 sched = map (\<lambda>n. n * n) (fed 0 sched)"
    using inv by (cases rule: pow_invE) (auto simp: pow_fin_def)
  have 5: "pool s \<noteq> [Exited] \<longrightarrow>
          step (RecvClosed 0 0) s \<noteq> None
        \<or> (\<forall>v. step (EnvSend 0 0 v) s \<noteq> None)
        \<or> (\<exists>n. step (EnvRecv 0 1 (n * n)) s \<noteq> None)
        \<or> step (Close 0 1) s \<noteq> None"
    using inv by (cases rule: pow_invE) (auto simp: step_def offer_single)
  have 6: "pool s \<noteq> [Exited] \<and> pool s \<noteq> [ClosePending 1]
          \<and> length (fed 0 sched) = length (recvd 1 sched) \<longrightarrow>
          (0 \<notin> closed s \<longrightarrow> (\<forall>v. step (EnvSend 0 0 v) s = Some (s\<lparr>pool := [PowSelect x 0 1 v]\<rparr>)))
        \<and> (0 \<in> closed s \<longrightarrow> step (RecvClosed 0 0) s = Some (s\<lparr>pool := [ClosePending 1]\<rparr>))"
    using inv by (cases rule: pow_invE) (auto simp: step_def offer_single upd_single_eq)
  have 7: "Done 0 x \<notin> set sched \<and> length (fed 0 sched) = Suc (length (recvd 1 sched)) \<longrightarrow>
          step (EnvRecv 0 1 (last (fed 0 sched) * last (fed 0 sched))) s
            = Some (s\<lparr>pool := [PowRange x 0 1]\<rparr>)
        \<and> (\<forall>v. step (EnvRecv 0 1 v) s \<noteq> None \<longrightarrow> v = last (fed 0 sched) * last (fed 0 sched))
        \<and> (x \<in> cancelled s \<longrightarrow> step (Done 0 x) s = Some (s\<lparr>pool := [ClosePending 1]\<rparr>))"
    using inv
    by (cases rule: pow_invE)
       (auto simp: step_def offer_single upd_single_eq pow_fin_def split: if_splits)
  have 8: "pool s = [ClosePending 1] \<longrightarrow>
          step (Close 0 1) s = Some (s\<lparr>pool := [Exited], closed := insert 1 (closed s)\<rparr>)"
    using inv by (cases rule: pow_invE) (auto simp: step_def offer_single upd_def)
  have 9: "Done 0 x \<in> set sched \<longrightarrow>
          (pool s = [ClosePending 1] \<or> pool s = [Exited])
        \<and> length (fed 0 sched) = Suc (length (recvd 1 sched))
        \<and> (\<forall>pre post. sched = pre @ Done 0 x # post \<longrightarrow> recvd 1 post = [] \<and> fed 0 post = [])"
  proof
    assume d: "Done 0 x \<in> set sched"
    from inv d have a: "pool s = [ClosePending 1] \<or> pool s = [Exited]"
      by (cases rule: pow_invE) auto
    from inv d have b: "length (fed 0 sched) = Suc (length (recvd 1 sched))"
      by (cases rule: pow_invE) (auto simp: pow_fin_def)
    have "recvd 1 post = [] \<and> fed 0 post = []" if sp: "sched = pre @ Done 0 x # post" for pre post
    proof -
      from sp e obtain t where t: "exec (pre @ [Done 0 x]) (snd (power_stage x 0 (snd (make_chan boot)))) = Some t"
        "exec post t = Some s"
        by (auto simp: exec_append split: option.splits)
      from sp e(2) have "EnvClose 1 \<notin> set (pre @ [Done 0 x])" by auto
      from pow_inv_exec[OF t(1) this]
      have "pool t = [ClosePending 1] \<or> pool t = [WgDonePending 0] \<or> pool t = [Exited]"
        by (cases rule: pow_invE) auto
      from stopped_exec[OF this t(2)] show ?thesis by simp
    qed
    with a b show "(pool s = [ClosePending 1] \<or> pool s = [Exited])
        \<and> length (fed 0 sched) = Suc (length (recvd 1 sched))
        \<and> (\<forall>pre post. sched = pre @ Done 0 x # post \<longrightarrow> recvd 1 post = [] \<and> fed 0 post = [])"
      by blast
  qed
  have 10: "\<forall>vs. \<exists>t. exec (concat (map (\<lambda>v. [EnvSend 0 0 v, EnvRecv 0 1 (v * v)]) vs)
                @ [EnvClose 0, RecvClosed 0 0, Close 0 1])
              (snd (power_stage x 0 (snd (make_chan boot)))) = Some t
           \<and> pool t = [Exited] \<and> 1 \<in> closed t \<and> crashed t = None"
    using power_full_run[of _ x] by simp
  from c 1 2 3 4 5 6 7 8 9 10 show ?thesis by (simp add: power_boot)
qed

text \<open>C6 on the values 3 and 5.\<close>

theorem power_squares_in_order_witness:
  "exec [EnvSend 0 0 3, EnvRecv 0 1 9, EnvSend 0 0 5, EnvRecv 0 1 25, EnvClose 0, RecvClosed 0 0, Close 0 1]
      (snd (power_stage 0 0 (snd (make_chan boot))))
     = Some \<lparr>pool = [Exited], nchans = 2, closed = {1, 0}, nctxs = 0, cancelled = {}, wgs = [],
         crashed = None\<rparr>
   \<and> EnvClose (fst (power_stage 0 0 (snd (make_chan boot))))
       \<notin> set [EnvSend 0 0 3, EnvRecv 0 1 9, EnvSend 0 0 5, EnvRecv 0 1 25, EnvClose 0, RecvClosed 0 0, Close 0 1]
   \<and> recvd (fst (power_stage 0 0 (snd (make_chan boot))))
        [EnvSend 0 0 3, EnvRecv 0 1 9, EnvSend 0 0 5, EnvRecv 0 1 25, EnvClose 0, RecvClosed 0 0, Close 0 1]
       = [9, 25]"
proof -
  have e: "exec [EnvSend 0 0 3, EnvRecv 0 1 9, EnvSend 0 0 5, EnvRecv 0 1 25, EnvClose 0, RecvClosed 0 0, Close 0 1]
      (snd (power_stage 0 0 (snd (make_chan boot))))
     = Some \<lparr>pool = [Exited], nchans = 2, closed = {1, 0}, nctxs = 0, cancelled = {}, wgs = [],
         crashed = None\<rparr>"
    by (simp add: power_boot step_def offer_def upd_def)
  have n: "EnvClose (fst (power_stage 0 0 (snd (make_chan boot))))
       \<notin> set [EnvSend 0 0 3, EnvRecv 0 1 9, EnvSend 0 0 5, EnvRecv 0 1 25, EnvClose 0, RecvClosed 0 0, Close 0 1]"
    by (simp add: power_boot)
  from power_squares_in_order[OF e n] e n show ?thesis by (simp add: power_boot)
qed

text \<open>
  Claim C6 as stated fails twice. Were the transform a parameter, the caller could pass
  the identity and receive the 3 it fed: the goroutine that holds 3 does not offer 3,
  it offers 9. And not every value received is sent on: fed 7, the goroutine that
  takes the cancellation case returns and closes its channel without sending anything.
\<close>

theorem power_transform_is_fixed_counterexample:
  "exec [EnvSend 0 0 3, EnvRecv 0 (fst (power_stage 0 0 (snd (make_chan boot)))) 3]
      (snd (power_stage 0 0 (snd (make_chan boot)))) = None
   \<and> exec [EnvSend 0 0 3, EnvRecv 0 (fst (power_stage 0 0 (snd (make_chan boot)))) 9]
      (snd (power_stage 0 0 (snd (make_chan boot))))
     = Some \<lparr>pool = [PowRange 0 0 1], nchans = 2, closed = {}, nctxs = 0, cancelled = {}, wgs = [],
         crashed = None\<rparr>
   \<and> exec [EnvSend 0 0 7, EnvCancel 0, Done 0 0, Close 0 (fst (power_stage 0 0 (snd (make_chan boot))))]
      (snd (power_stage 0 0 (snd (make_chan boot))))
     = Some \<lparr>pool = [Exited], nchans = 2, closed = {1}, nctxs = 0, cancelled = {0}, wgs = [],
         crashed = None\<rparr>
   \<and> fed 0 [EnvSend 0 0 7, EnvCancel 0, Done 0 0, Close 0 (fst (power_stage 0 0 (snd (make_chan boot))))]
       = [7]
   \<and> recvd (fst (power_stage 0 0 (snd (make_chan boot))))
       [EnvSend 0 0 7, EnvCancel 0, Done 0 0, Close 0 (fst (power_stage 0 0 (snd (make_chan boot))))] = []"
  by (simp add: power_boot step_def offer_def upd_def)

section \<open>The fan-in stage: \<^verbatim>\<open>merge\<close>\<close>

text \<open>
  The caller has made \<open>n\<close> channels and passes some of them, \<open>chs\<close>, to
  \<^verbatim>\<open>merge(ctx, chs...)\<close>. The call makes wait group 0 and the outbound channel \<open>n\<close>, and
  starts goroutine \<open>i\<close> running \<^verbatim>\<open>send(chs[i])\<close> for each \<open>i\<close> and, last, goroutine
  \<open>length chs\<close>, which waits and closes. The caller feeds and closes the inbound
  channels and receives from the outbound one, of which it holds the receiving end only.
\<close>

lemma merge_boot:
  "merge x chs (make_chans n boot) =
     (n, \<lparr>pool = map (\<lambda>ch. SendRange x 0 ch n) chs @ [WgWaiting 0 n], nchans = Suc n, closed = {},
          nctxs = 0, cancelled = {}, wgs = [int (length chs)], crashed = None\<rparr>)"
  by (simp add: merge_def make_chans_boot make_chan_def foldl_go boot_def) (simp add: go_def)

text \<open>
  The states of a \<^verbatim>\<open>send\<close> goroutine on channel \<open>ch\<close>: it leaves its loop only on a
  closed inbound channel or through the cancellation case.
\<close>

definition fwd_ok :: "ctx \<Rightarrow> chan \<Rightarrow> chan set \<Rightarrow> bool \<Rightarrow> chan \<Rightarrow> worker \<Rightarrow> bool" where
  "fwd_ok x out cl dn ch w \<longleftrightarrow>
     ch < out \<and>
     (w = SendRange x 0 ch out \<or> (\<exists>v. w = SendSelect x 0 ch out v) \<or>
      (w = WgDonePending 0 \<or> w = Exited) \<and> (ch \<in> cl \<or> dn))"

text \<open>
  The states of the last goroutine: past \<^verbatim>\<open>wg.Wait()\<close> only when no \<^verbatim>\<open>send\<close> goroutine is
  left, and the outbound channel is closed exactly when it has returned.
\<close>

definition closer_ok :: "chan \<Rightarrow> event list \<Rightarrow> sys \<Rightarrow> worker list \<Rightarrow> worker \<Rightarrow> bool" where
  "closer_ok out sched s fs w \<longleftrightarrow>
     w = WgWaiting 0 out \<and> out \<notin> closed s \<and> closes out sched = 0 \<or>
     w = ClosePending out \<and> out \<notin> closed s \<and> closes out sched = 0 \<and> running fs = 0 \<or>
     w = Exited \<and> out \<in> closed s \<and> closes out sched = 1 \<and> running fs = 0"

definition merge_inv :: "ctx \<Rightarrow> chan list \<Rightarrow> chan \<Rightarrow> event list \<Rightarrow> sys \<Rightarrow> bool" where
  "merge_inv x chs out sched s \<longleftrightarrow>
     crashed s = None \<and>
     (\<exists>fs w. pool s = fs @ [w] \<and>
        list_all2 (fwd_ok x out (closed s) (saw_done x sched)) chs fs \<and>
        wgs s = [int (running fs)] \<and>
        (w = WgWaiting 0 out \<and> out \<notin> closed s \<and> closes out sched = 0 \<or>
         w = ClosePending out \<and> out \<notin> closed s \<and> closes out sched = 0 \<and> running fs = 0 \<or>
         w = Exited \<and> out \<in> closed s \<and> closes out sched = 1 \<and> running fs = 0))"

lemma merge_invI:
  assumes "crashed s = None" "pool s = fs @ [w]"
    "list_all2 (fwd_ok x out (closed s) (saw_done x sched)) chs fs"
    "wgs s = [int (running fs)]"
    "closer_ok out sched s fs w"
  shows "merge_inv x chs out sched s"
  using assms unfolding merge_inv_def closer_ok_def by blast

lemma merge_invE:
  assumes "merge_inv x chs out sched s"
  obtains fs w where "crashed s = None" "pool s = fs @ [w]"
    "list_all2 (fwd_ok x out (closed s) (saw_done x sched)) chs fs"
    "wgs s = [int (running fs)]"
    "closer_ok out sched s fs w"
  using assms unfolding merge_inv_def closer_ok_def by blast

lemma fwd_ok_mono:
  "fwd_ok x out cl dn ch w \<Longrightarrow> cl \<subseteq> cl' \<Longrightarrow> (dn \<longrightarrow> dn') \<Longrightarrow> fwd_ok x out cl' dn' ch w"
  by (auto simp: fwd_ok_def)

lemma fwd_all_mono:
  "list_all2 (fwd_ok x out cl dn) chs fs \<Longrightarrow> cl \<subseteq> cl' \<Longrightarrow> (dn \<longrightarrow> dn') \<Longrightarrow>
   list_all2 (fwd_ok x out cl' dn') chs fs"
  by (erule list_all2_mono) (rule fwd_ok_mono)

lemma fwd_all_update:
  "list_all2 (fwd_ok x out cl dn) chs fs \<Longrightarrow> i < length fs \<Longrightarrow> fwd_ok x out cl dn (chs ! i) w \<Longrightarrow>
   list_all2 (fwd_ok x out cl dn) chs (fs[i := w])"
  by (metis list_all2_update_cong list_update_id)

lemma fwd_nth:
  "list_all2 (fwd_ok x out cl dn) chs fs \<Longrightarrow> i < length fs \<Longrightarrow> fwd_ok x out cl dn (chs ! i) (fs ! i)"
  by (simp add: list_all2_conv_all_nth)

lemma fwd_ok_wstep:
  assumes "fwd_ok x out cl dn ch w" "wstep w a = Some w'"
  shows "(\<exists>v. a = ARecv ch v \<and> w = SendRange x 0 ch out \<and> w' = SendSelect x 0 ch out v) \<or>
         (a = ARecvClosed ch \<and> w = SendRange x 0 ch out \<and> w' = WgDonePending 0) \<or>
         (\<exists>v. a = ASend out v \<and> w = SendSelect x 0 ch out v \<and> w' = SendRange x 0 ch out) \<or>
         (\<exists>v. a = ADone x \<and> w = SendSelect x 0 ch out v \<and> w' = WgDonePending 0) \<or>
         (a = AWgDone 0 \<and> w = WgDonePending 0 \<and> w' = Exited \<and> (ch \<in> cl \<or> dn))"
  using assms by (cases a) (auto simp: fwd_ok_def split: if_splits)

lemma closer_ok_wstep:
  assumes "closer_ok out sched s fs w" "wstep w a = Some w'"
  shows "a = AWgWait 0 \<and> w = WgWaiting 0 out \<and> w' = ClosePending out \<and> out \<notin> closed s \<and> closes out sched = 0 \<or>
         a = AClose out \<and> w = ClosePending out \<and> w' = Exited \<and> out \<notin> closed s \<and> closes out sched = 0
           \<and> running fs = 0"
  using assms by (cases a) (auto simp: closer_ok_def split: if_splits)

lemma closer_ok_mono:
  "closer_ok out sched s fs w \<Longrightarrow> closes out [e] = 0 \<Longrightarrow> (out \<in> closed s') = (out \<in> closed s) \<Longrightarrow>
   closer_ok out (sched @ [e]) s' fs w"
  by (auto simp: closer_ok_def closes_append)

text \<open>A \<^verbatim>\<open>send\<close> goroutine moves on without returning.\<close>

lemma merge_inv_forward:
  assumes c: "crashed s = None" and p: "pool s = fs @ [w]"
    and fw: "list_all2 (fwd_ok x out (closed s) (saw_done x sched)) chs fs"
    and g: "wgs s = [int (running fs)]"
    and d: "closer_ok out sched s fs w"
    and i: "i < length fs" and ok: "fwd_ok x out (closed s) (saw_done x (sched @ [e])) (chs ! i) w'"
    and l: "fs ! i \<noteq> Exited" "w' \<noteq> Exited"
    and e: "closes out [e] = 0"
    and s': "s' = upd i w' s"
  shows "merge_inv x chs out (sched @ [e]) s'"
proof (rule merge_invI)
  show "crashed s' = None" using c s' by simp
  show "pool s' = fs[i := w'] @ [w]" using p i s' by (simp add: list_update_append)
  have "list_all2 (fwd_ok x out (closed s) (saw_done x (sched @ [e]))) chs fs"
    using fw by (rule fwd_all_mono) (auto simp: saw_done_snoc)
  then show "list_all2 (fwd_ok x out (closed s') (saw_done x (sched @ [e]))) chs (fs[i := w'])"
    using i ok s' by (simp add: fwd_all_update)
  have eq: "running (fs[i := w']) = running fs"
    using running_update[OF i, of w'] l by (simp add: live_def)
  then show "wgs s' = [int (running (fs[i := w']))]" using g s' by simp
  show "closer_ok out (sched @ [e]) s' (fs[i := w']) w"
    using d e eq s' by (simp add: closer_ok_def closes_append)
qed

lemma merge_inv_step:
  assumes inv: "merge_inv x chs out sched s" and st: "step e s = Some s'" and ne: "e \<noteq> EnvClose out"
  shows "merge_inv x chs out (sched @ [e]) s'"
proof -
  from inv obtain fs w where c: "crashed s = None" and p: "pool s = fs @ [w]"
    and fw: "list_all2 (fwd_ok x out (closed s) (saw_done x sched)) chs fs"
    and g: "wgs s = [int (running fs)]"
    and d: "closer_ok out sched s fs w"
    by (rule merge_invE)
  from st c have f: "fire e s = Some s'" by (simp add: step_def)
  note fwd = fwd_ok_wstep[OF fwd_nth[OF fw]]
  note clo = closer_ok_wstep[OF d]
  note forward = merge_inv_forward[OF c p fw g d]
  have fw': "list_all2 (fwd_ok x out (closed s) (saw_done x (sched @ [e]))) chs fs"
    using fw by (rule fwd_all_mono) (auto simp: saw_done_snoc)
  show ?thesis
  proof (cases e)
    case (Comm i j ch v)
    with f obtain wi wj where "offer i (ASend ch v) s = Some wi" "offer j (ARecv ch v) s = Some wj"
      "ch \<notin> closed s"
      by (auto split: if_splits option.splits)
    with p have "ch = out" "ch < out"
      using fwd[of i "ASend ch v" wi] fwd[of j "ARecv ch v" wj]
        clo[of "ASend ch v" wi] clo[of "ARecv ch v" wj] fwd_nth[OF fw, of j]
      by (auto simp: offer_append1 fwd_ok_def)
    then show ?thesis by simp
  next
    case (SendClosed i ch v)
    with f obtain wi where o: "offer i (ASend ch v) s = Some wi" "ch \<in> closed s"
      by (auto split: if_splits option.splits)
    with p have "i < length fs" "ch = out" "fs ! i \<noteq> Exited"
      using fwd[of i "ASend ch v" wi] clo[of "ASend ch v" wi] by (auto simp: offer_append1)
    with o d live_sum_zero[of fs i] show ?thesis by (auto simp: closer_ok_def)
  next
    case (RecvClosed j ch)
    with f obtain wj where o: "offer j (ARecvClosed ch) s = Some wj" "ch \<in> closed s" "s' = upd j wj s"
      by (auto split: if_splits option.splits)
    with p have j: "j < length fs" "ch = chs ! j" "fs ! j = SendRange x 0 ch out" "wj = WgDonePending 0"
      using fwd[of j "ARecvClosed ch" wj] clo[of "ARecvClosed ch" wj] by (auto simp: offer_append1)
    show ?thesis
      using j o fwd_nth[OF fw j(1)] RecvClosed by (intro forward[where i = j and w' = wj]) (auto simp: fwd_ok_def)
  next
    case (Close i ch)
    with f obtain wi where o: "offer i (AClose ch) s = Some wi"
      by (auto split: if_splits option.splits)
    with p have i: "i = length fs" "ch = out" "w = ClosePending out" "wi = Exited" "out \<notin> closed s"
        "closes out sched = 0" "running fs = 0"
      using fwd[of i "AClose ch" wi] clo[of "AClose ch" wi] by (auto simp: offer_append1)
    with f o Close have s': "s' = upd (length fs) Exited (s\<lparr>closed := insert out (closed s)\<rparr>)" by simp
    show ?thesis
    proof (rule merge_invI)
      show "crashed s' = None" using c s' by simp
      show "pool s' = fs @ [Exited]" using p s' by simp
      show "list_all2 (fwd_ok x out (closed s') (saw_done x (sched @ [e]))) chs fs"
        using fw' by (rule fwd_all_mono) (auto simp: s')
      show "wgs s' = [int (running fs)]" using g s' by simp
      show "closer_ok out (sched @ [e]) s' fs Exited"
        using i s' Close by (simp add: closer_ok_def closes_append)
    qed
  next
    case (Done i y)
    with f obtain wi where o: "offer i (ADone y) s = Some wi" "y \<in> cancelled s" "s' = upd i wi s"
      by (auto split: if_splits option.splits)
    with p have i: "i < length fs" "y = x" "fs ! i \<noteq> Exited" "wi = WgDonePending 0"
      using fwd[of i "ADone y" wi] clo[of "ADone y" wi] by (auto simp: offer_append1)
    show ?thesis
      using i o fwd_nth[OF fw i(1)] Done
      by (intro forward[where i = i and w' = wi]) (auto simp: fwd_ok_def saw_done_snoc)
  next
    case (Cancel i y)
    with f obtain wi where o: "offer i (ACancel y) s = Some wi"
      by (auto split: if_splits option.splits)
    with p show ?thesis
      using fwd[of i "ACancel y" wi] clo[of "ACancel y" wi] by (auto simp: offer_append1)
  next
    case (WgDone i k)
    with f obtain wi where o: "offer i (AWgDone k) s = Some wi"
      by (auto split: if_splits option.splits)
    with p have i: "i < length fs" "k = 0" "fs ! i = WgDonePending 0" "wi = Exited"
        "chs ! i \<in> closed s \<or> saw_done x sched"
      using fwd[of i "AWgDone k" wi] clo[of "AWgDone k" wi] by (auto simp: offer_append1)
    have sm: "running (fs[i := Exited]) + 1 = running fs"
      using running_update[OF i(1), of Exited] i(3) by (simp add: live_def)
    have pos: "\<not> wgs s ! 0 \<le> 0" unfolding g using sm by (simp only: nth_Cons_0)
    have "fire (WgDone i 0) s = Some (upd i Exited (s\<lparr>wgs := (wgs s)[0 := wgs s ! 0 - 1]\<rparr>))"
      using o i pos g by simp
    with f WgDone i g
    have s': "s' = upd i Exited (s\<lparr>wgs := [int (running fs) - 1]\<rparr>)" by simp
    have w: "w = WgWaiting 0 out" "out \<notin> closed s" "closes out sched = 0"
      using d sm by (auto simp: closer_ok_def)
    show ?thesis
    proof (rule merge_invI)
      show "crashed s' = None" using c s' by simp
      show "pool s' = fs[i := Exited] @ [w]" using p s' i by (simp add: list_update_append)
      show "list_all2 (fwd_ok x out (closed s') (saw_done x (sched @ [e]))) chs (fs[i := Exited])"
        using fw' i fwd_nth[OF fw i(1)] s' by (auto intro!: fwd_all_update simp: fwd_ok_def saw_done_snoc)
      show "wgs s' = [int (running (fs[i := Exited]))]" using sm s' by simp
      show "closer_ok out (sched @ [e]) s' (fs[i := Exited]) w"
        using w s' WgDone by (simp add: closer_ok_def closes_append)
    qed
  next
    case (WgWait i k)
    with f obtain wi where o: "offer i (AWgWait k) s = Some wi" "wgs s ! k = 0" "k < length (wgs s)"
        "s' = upd i wi s"
      by (auto split: if_splits option.splits)
    with p have i: "i = length fs" "k = 0" "w = WgWaiting 0 out" "wi = ClosePending out"
        "out \<notin> closed s" "closes out sched = 0"
      using fwd[of i "AWgWait k" wi] clo[of "AWgWait k" wi] by (auto simp: offer_append1)
    show ?thesis
    proof (rule merge_invI)
      show "crashed s' = None" using c o by simp
      show "pool s' = fs @ [ClosePending out]" using p o i by simp
      show "list_all2 (fwd_ok x out (closed s') (saw_done x (sched @ [e]))) chs fs"
        using fw' o by simp
      show "wgs s' = [int (running fs)]" using g o by simp
      show "closer_ok out (sched @ [e]) s' fs (ClosePending out)"
        using i o g WgWait by (simp add: closer_ok_def closes_append)
    qed
  next
    case (EnvSend j ch v)
    with f obtain wj where o: "offer j (ARecv ch v) s = Some wj" "ch \<notin> closed s" "s' = upd j wj s"
      by (auto split: if_splits option.splits)
    with p have j: "j < length fs" "ch = chs ! j" "fs ! j = SendRange x 0 ch out" "wj = SendSelect x 0 ch out v"
      using fwd[of j "ARecv ch v" wj] clo[of "ARecv ch v" wj] by (auto simp: offer_append1)
    show ?thesis
      using j o fwd_nth[OF fw j(1)] EnvSend by (intro forward[where i = j and w' = wj]) (auto simp: fwd_ok_def)
  next
    case (EnvRecv i ch v)
    with f obtain wi where o: "offer i (ASend ch v) s = Some wi" "ch \<notin> closed s" "s' = upd i wi s"
      by (auto split: if_splits option.splits)
    with p have i: "i < length fs" "ch = out" "fs ! i = SendSelect x 0 (chs ! i) out v"
        "wi = SendRange x 0 (chs ! i) out"
      using fwd[of i "ASend ch v" wi] clo[of "ASend ch v" wi] by (auto simp: offer_append1)
    show ?thesis
      using i o fwd_nth[OF fw i(1)] EnvRecv by (intro forward[where i = i and w' = wi]) (auto simp: fwd_ok_def)
  next
    case (EnvClose ch)
    with f ne have s': "s' = s\<lparr>closed := insert ch (closed s)\<rparr>" "ch \<noteq> out"
      by (auto split: if_splits)
    show ?thesis
    proof (rule merge_invI)
      show "crashed s' = None" using c s' by simp
      show "pool s' = fs @ [w]" using p s' by simp
      show "list_all2 (fwd_ok x out (closed s') (saw_done x (sched @ [e]))) chs fs"
        using fw' by (rule fwd_all_mono) (auto simp: s')
      show "wgs s' = [int (running fs)]" using g s' by simp
      show "closer_ok out (sched @ [e]) s' fs w"
        using d s' EnvClose by (intro closer_ok_mono) auto
    qed
  next
    case (EnvCancel y)
    with f have s': "s' = s\<lparr>cancelled := insert y (cancelled s)\<rparr>" by simp
    show ?thesis
    proof (rule merge_invI)
      show "crashed s' = None" using c s' by simp
      show "pool s' = fs @ [w]" using p s' by simp
      show "list_all2 (fwd_ok x out (closed s') (saw_done x (sched @ [e]))) chs fs"
        using fw' by (simp add: s')
      show "wgs s' = [int (running fs)]" using g s' by simp
      show "closer_ok out (sched @ [e]) s' fs w"
        using d s' EnvCancel by (intro closer_ok_mono) auto
    qed
  qed
qed

lemma merge_inv_exec:
  assumes "\<forall>c\<in>set chs. c < n"
  shows "exec sched (snd (merge x chs (make_chans n boot))) = Some s \<Longrightarrow> EnvClose n \<notin> set sched \<Longrightarrow>
    merge_inv x chs n sched s"
proof (induction sched arbitrary: s rule: rev_induct)
  case Nil
  have "list_all2 (fwd_ok x n {} False) chs (map (\<lambda>ch. SendRange x 0 ch n) chs)"
    using assms by (auto simp: list_all2_conv_all_nth fwd_ok_def)
  with Nil show ?case
    by (intro merge_invI[where fs = "map (\<lambda>ch. SendRange x 0 ch n) chs" and w = "WgWaiting 0 n"])
       (auto simp: merge_boot running_start closer_ok_def saw_done_def)
next
  case (snoc e es)
  then show ?case by (auto simp: exec_snoc intro: merge_inv_step)
qed

lemma merge_no_comm:
  assumes p: "pool s = fs @ [w]"
    and fw: "list_all2 (fwd_ok x out cl dn) chs fs"
    and d: "closer_ok out sched s fs w"
  shows "fire (Comm i j ch v) s = None"
proof (rule ccontr)
  assume "fire (Comm i j ch v) s \<noteq> None"
  then obtain wi wj where "offer i (ASend ch v) s = Some wi" "offer j (ARecv ch v) s = Some wj"
    by (auto split: if_splits option.splits)
  with p have "ch = out" "ch < out"
    using fwd_ok_wstep[OF fwd_nth[OF fw], of i "ASend ch v" wi]
      fwd_ok_wstep[OF fwd_nth[OF fw], of j "ARecv ch v" wj]
      closer_ok_wstep[OF d, of "ASend ch v" wi] closer_ok_wstep[OF d, of "ARecv ch v" wj]
      fwd_nth[OF fw, of j]
    by (auto simp: offer_append1 fwd_ok_def)
  then show False by simp
qed

text \<open>
  Unless a \<^verbatim>\<open>send\<close> goroutine took the cancellation case, every value fed has been
  received by the caller or is held by a \<^verbatim>\<open>send\<close> goroutine.
\<close>

definition merge_flow :: "ctx \<Rightarrow> chan \<Rightarrow> event list \<Rightarrow> sys \<Rightarrow> bool" where
  "merge_flow x out sched s \<longleftrightarrow>
     saw_done x sched \<or> mset (fedall sched) = mset (recvd out sched) + cargo (pool s)"

lemma merge_flow_step:
  assumes inv: "merge_inv x chs out sched s" and fl: "merge_flow x out sched s"
    and st: "step e s = Some s'" and ne: "e \<noteq> EnvClose out"
  shows "merge_flow x out (sched @ [e]) s'"
proof (cases "saw_done x sched")
  case True
  then show ?thesis by (simp add: merge_flow_def saw_done_snoc)
next
  case False
  with fl have eq: "mset (fedall sched) = mset (recvd out sched) + cargo (pool s)"
    by (simp add: merge_flow_def)
  from inv obtain fs w where c: "crashed s = None" and p: "pool s = fs @ [w]"
    and fw: "list_all2 (fwd_ok x out (closed s) (saw_done x sched)) chs fs"
    and d: "closer_ok out sched s fs w"
    by (rule merge_invE)
  from st c have f: "fire e s = Some s'" by (simp add: step_def)
  have c': "crashed s' = None"
    using merge_inv_step[OF inv st ne] by (auto elim: merge_invE)
  have nc: "\<forall>i j c v. e \<noteq> Comm i j c v"
    using f merge_no_comm[OF p fw d] by auto
  show ?thesis
  proof (cases "solo e")
    case None
    with nc have "fedall [e] = []" "recvd out [e] = []" by (auto simp: solo_None)
    with fire_still[OF f None nc] eq show ?thesis
      by (simp add: merge_flow_def fedall_append recvd_append)
  next
    case (Some ia)
    then obtain i a where ia: "solo e = Some (i, a)" by (cases ia) auto
    from fire_solo[OF f c c' ia] obtain wi
      where o: "offer i a s = Some wi" and p': "pool s' = (pool s)[i := wi]" by blast
    from o have i: "i < length (pool s)" by (simp add: offer_Some)
    note up = cargo_update[OF i, of wi]
    from o p consider
        (fwd) "i < length fs" "wstep (fs ! i) a = Some wi" "pool s ! i = fs ! i"
      | (clo) "wstep w a = Some wi" "pool s ! i = w"
      by (auto simp: offer_append1 nth_append)
    then show ?thesis
    proof cases
      case fwd
      from fwd_ok_wstep[OF fwd_nth[OF fw fwd(1)] fwd(2)] ia fwd(3) eq up p'
      show ?thesis
        by (auto simp: solo_Some merge_flow_def fedall_append recvd_append saw_done_snoc)
    next
      case clo
      from closer_ok_wstep[OF d clo(1)] ia clo(2) eq up p'
      show ?thesis
        by (auto simp: solo_Some merge_flow_def fedall_append recvd_append saw_done_snoc)
    qed
  qed
qed

lemma merge_flow_exec:
  assumes "\<forall>c\<in>set chs. c < n"
  shows "exec sched (snd (merge x chs (make_chans n boot))) = Some s \<Longrightarrow> EnvClose n \<notin> set sched \<Longrightarrow>
    merge_flow x n sched s"
proof (induction sched arbitrary: s rule: rev_induct)
  case Nil
  then show ?case by (auto simp: merge_boot merge_flow_def cargo_start)
next
  case (snoc e es)
  then show ?case
    by (auto simp: exec_snoc intro!: merge_flow_step merge_inv_exec[OF assms])
qed

lemma merge_progress:
  assumes inv: "merge_inv x chs out sched s" and all: "\<forall>c\<in>set chs. c \<in> closed s"
    and opn: "out \<notin> closed s"
  shows "(\<exists>i<length chs. step (RecvClosed i (chs ! i)) s \<noteq> None \<or>
            (\<exists>v. step (EnvRecv i out v) s \<noteq> None) \<or> step (WgDone i 0) s \<noteq> None) \<or>
         step (WgWait (length chs) 0) s \<noteq> None \<or> step (Close (length chs) out) s \<noteq> None"
proof -
  from inv obtain fs w where c: "crashed s = None" and p: "pool s = fs @ [w]"
    and fw: "list_all2 (fwd_ok x out (closed s) (saw_done x sched)) chs fs"
    and g: "wgs s = [int (running fs)]"
    and d: "closer_ok out sched s fs w"
    by (rule merge_invE)
  have len: "length chs = length fs" using fw by (rule list_all2_lengthD)
  show ?thesis
  proof (cases "running fs = 0")
    case True
    with d opn c p g len have "step (WgWait (length chs) 0) s \<noteq> None \<or> step (Close (length chs) out) s \<noteq> None"
      by (auto simp: closer_ok_def step_def offer_def)
    then show ?thesis by blast
  next
    case False
    then obtain i where i: "i < length fs" "fs ! i \<noteq> Exited" using running_pos by blast
    then have ci: "chs ! i \<in> closed s" using all len by simp
    from False have pos: "\<not> wgs s ! 0 \<le> 0" unfolding g by (simp only: nth_Cons_0)
    from fwd_nth[OF fw i(1)] i ci opn c p pos g
    have "step (RecvClosed i (chs ! i)) s \<noteq> None \<or>
            (\<exists>v. step (EnvRecv i out v) s \<noteq> None) \<or> step (WgDone i 0) s \<noteq> None"
      by (auto simp: fwd_ok_def step_def offer_def nth_append)
    with i len show ?thesis by auto
  qed
qed

lemma merge_only_closer:
  assumes inv: "merge_inv x chs out sched s" and st: "step (Close i c) s = Some s'"
  shows "i = length chs \<and> c = out"
proof -
  from inv obtain fs w where cr: "crashed s = None" and p: "pool s = fs @ [w]"
    and fw: "list_all2 (fwd_ok x out (closed s) (saw_done x sched)) chs fs"
    and d: "closer_ok out sched s fs w"
    by (rule merge_invE)
  have len: "length chs = length fs" using fw by (rule list_all2_lengthD)
  from st cr obtain wi where "offer i (AClose c) s = Some wi"
    by (auto simp: step_def split: option.splits)
  with p len show ?thesis
    using fwd_ok_wstep[OF fwd_nth[OF fw], of i "AClose c" wi] closer_ok_wstep[OF d, of "AClose c" wi]
    by (auto simp: offer_append1)
qed

lemma merge_closer_exec:
  assumes "\<forall>c\<in>set chs. c < n"
  shows "exec sched (snd (merge x chs (make_chans n boot))) = Some s \<Longrightarrow> EnvClose n \<notin> set sched \<Longrightarrow>
    Close i c \<in> set sched \<Longrightarrow> i = length chs \<and> c = n"
proof (induction sched arbitrary: s rule: rev_induct)
  case Nil
  then show ?case by simp
next
  case (snoc e es)
  from snoc.prems obtain t where t: "exec es (snd (merge x chs (make_chans n boot))) = Some t"
    "step e t = Some s" by (auto simp: exec_snoc)
  show ?case
  proof (cases "e = Close i c")
    case True
    with t snoc.prems merge_inv_exec[OF assms t(1)] show ?thesis
      by (auto dest: merge_only_closer)
  next
    case False
    with snoc t show ?thesis by auto
  qed
qed

lemma merge_bound_step:
  assumes inv: "merge_inv x chs out sched s"
    and st: "step e s = Some s'" and ne: "e \<noteq> EnvClose out"
  shows "(if is_move e then 1 else 0) + ranks (pool s') \<le> ranks (pool s) + length (fedall [e])"
proof -
  from inv obtain fs w where c: "crashed s = None" and p: "pool s = fs @ [w]"
    and fw: "list_all2 (fwd_ok x out (closed s) (saw_done x sched)) chs fs"
    and d: "closer_ok out sched s fs w"
    by (rule merge_invE)
  from st c have f: "fire e s = Some s'" by (simp add: step_def)
  have c': "crashed s' = None"
    using merge_inv_step[OF inv st ne] by (auto elim: merge_invE)
  have nc: "\<forall>i j c v. e \<noteq> Comm i j c v"
    using f merge_no_comm[OF p fw d] by auto
  show ?thesis
  proof (cases "solo e")
    case None
    with nc have "\<not> is_move e" by (auto simp: solo_None)
    with fire_still[OF f None nc] show ?thesis by simp
  next
    case (Some ia)
    then obtain i a where ia: "solo e = Some (i, a)" by (cases ia) auto
    from fire_solo[OF f c c' ia] obtain wi
      where o: "offer i a s = Some wi" and p': "pool s' = (pool s)[i := wi]" by blast
    from o have i: "i < length (pool s)" by (simp add: offer_Some)
    note up = ranks_update[OF i, of wi]
    from o p consider
        (fwd) "i < length fs" "wstep (fs ! i) a = Some wi" "pool s ! i = fs ! i"
      | (clo) "wstep w a = Some wi" "pool s ! i = w"
      by (auto simp: offer_append1 nth_append)
    then show ?thesis
    proof cases
      case fwd
      from fwd_ok_wstep[OF fwd_nth[OF fw fwd(1)] fwd(2)] ia fwd(3) up p'
      show ?thesis by (auto simp: solo_Some)
    next
      case clo
      from closer_ok_wstep[OF d clo(1)] ia clo(2) up p'
      show ?thesis by (auto simp: solo_Some)
    qed
  qed
qed

lemma merge_bound_exec:
  assumes "\<forall>c\<in>set chs. c < n"
  shows "exec sched (snd (merge x chs (make_chans n boot))) = Some s \<Longrightarrow> EnvClose n \<notin> set sched \<Longrightarrow>
    moves sched + ranks (pool s) \<le> 2 * length chs + 2 + length (fedall sched)"
proof (induction sched arbitrary: s rule: rev_induct)
  case Nil
  then show ?case by (auto simp: merge_boot ranks_start moves_def)
next
  case (snoc e es)
  from snoc.prems obtain t where t: "exec es (snd (merge x chs (make_chans n boot))) = Some t"
    "step e t = Some s" and ne: "EnvClose n \<notin> set es" "e \<noteq> EnvClose n" by (auto simp: exec_snoc)
  from merge_bound_step[OF merge_inv_exec[OF assms t(1) ne(1)] t(2) ne(2)] snoc.IH[OF t(1) ne(1)]
  show ?case by (simp add: moves_snoc fedall_append split: if_splits)
qed

text \<open>
  Claim C3. For every list \<open>chs\<close> of inbound channels (\<open>N = length chs\<close>), every context
  and every run of \<^verbatim>\<open>merge\<close> against a caller that does not close the outbound channel:
  no panic occurs (closing a closed channel would be one); the wait group starts at
  \<open>N\<close> and always equals the number of \<^verbatim>\<open>send\<close> goroutines that have not returned; the
  outbound channel has been closed once if it is closed and never otherwise, and only
  by goroutine \<open>N\<close>, the one behind \<^verbatim>\<open>wg.Wait()\<close>; when it is closed every \<^verbatim>\<open>send\<close>
  goroutine has returned and the counter is 0; when it is closed and no goroutine took
  the cancellation case, every inbound channel is closed and the values the caller
  received are, as a multiset, the values it fed; conversely, when all inbound
  channels are closed and the outbound one is not, a goroutine of the stage can step
  (given a caller who receives), and the pool takes at most \<open>2 N + 2\<close> steps plus one
  for each value fed, so the outbound channel is closed after finitely many steps.
\<close>

theorem merge_closes_once_after_all_inputs:
  assumes "\<forall>c\<in>set chs. c < n"
    and "exec sched (snd (merge x chs (make_chans n boot))) = Some s"
    and "EnvClose (fst (merge x chs (make_chans n boot))) \<notin> set sched"
  shows "crashed s = None
    \<and> wgs (snd (merge x chs (make_chans n boot))) = [int (length chs)]
    \<and> wgs s = [int (running (take (length chs) (pool s)))]
    \<and> closes (fst (merge x chs (make_chans n boot))) sched
        = (if fst (merge x chs (make_chans n boot)) \<in> closed s then 1 else 0)
    \<and> (\<forall>i c. Close i c \<in> set sched \<longrightarrow> i = length chs \<and> c = fst (merge x chs (make_chans n boot)))
    \<and> (fst (merge x chs (make_chans n boot)) \<in> closed s \<longrightarrow>
          (\<forall>i<length chs. pool s ! i = Exited) \<and> wgs s = [0])
    \<and> (fst (merge x chs (make_chans n boot)) \<in> closed s \<and> \<not> saw_done x sched \<longrightarrow>
          (\<forall>c\<in>set chs. c \<in> closed s)
        \<and> mset (recvd (fst (merge x chs (make_chans n boot))) sched) = mset (fedall sched))
    \<and> ((\<forall>c\<in>set chs. c \<in> closed s) \<and> fst (merge x chs (make_chans n boot)) \<notin> closed s \<longrightarrow>
          (\<exists>i<length chs. step (RecvClosed i (chs ! i)) s \<noteq> None
             \<or> (\<exists>v. step (EnvRecv i (fst (merge x chs (make_chans n boot))) v) s \<noteq> None)
             \<or> step (WgDone i 0) s \<noteq> None)
        \<or> step (WgWait (length chs) 0) s \<noteq> None
        \<or> step (Close (length chs) (fst (merge x chs (make_chans n boot)))) s \<noteq> None)
    \<and> moves sched \<le> 2 * length chs + 2 + length (fedall sched)"
proof -
  have e: "exec sched (snd (merge x chs (make_chans n boot))) = Some s" "EnvClose n \<notin> set sched"
    using assms by (simp_all add: merge_boot)
  note inv = merge_inv_exec[OF assms(1) e]
  note flow = merge_flow_exec[OF assms(1) e]
  from inv obtain fs w where c: "crashed s = None" and p: "pool s = fs @ [w]"
    and fw: "list_all2 (fwd_ok x n (closed s) (saw_done x sched)) chs fs"
    and g: "wgs s = [int (running fs)]"
    and d: "closer_ok n sched s fs w"
    by (rule merge_invE)
  have len: "length chs = length fs" using fw by (rule list_all2_lengthD)
  have 1: "wgs (snd (merge x chs (make_chans n boot))) = [int (length chs)]"
    by (simp add: merge_boot)
  have 2: "wgs s = [int (running (take (length chs) (pool s)))]"
    using g p len by simp
  have 3: "closes n sched = (if n \<in> closed s then 1 else 0)"
    using d by (auto simp: closer_ok_def)
  have 4: "\<forall>i c. Close i c \<in> set sched \<longrightarrow> i = length chs \<and> c = n"
    using merge_closer_exec[OF assms(1) e] by blast
  have z: "n \<in> closed s \<Longrightarrow> running fs = 0" using d by (auto simp: closer_ok_def)
  have 5: "n \<in> closed s \<longrightarrow> (\<forall>i<length chs. pool s ! i = Exited) \<and> wgs s = [0]"
    using z live_sum_zero[of fs] p len g by (auto simp: nth_append)
  have 6: "n \<in> closed s \<and> \<not> saw_done x sched \<longrightarrow>
          (\<forall>c\<in>set chs. c \<in> closed s) \<and> mset (recvd n sched) = mset (fedall sched)"
  proof (intro impI conjI ballI)
    assume a: "n \<in> closed s \<and> \<not> saw_done x sched"
    then have r: "running fs = 0" using z by simp
    show "c \<in> closed s" if "c \<in> set chs" for c
    proof -
      from that obtain i where i: "i < length chs" "chs ! i = c" by (auto simp: in_set_conv_nth)
      with fwd_nth[OF fw, of i] live_sum_zero[OF r, of i] len a show ?thesis
        by (auto simp: fwd_ok_def)
    qed
    from a d have "w = Exited" by (auto simp: closer_ok_def)
    with flow a p cargo_none[OF r, of w] show "mset (recvd n sched) = mset (fedall sched)"
      by (simp add: merge_flow_def)
  qed
  have 7: "(\<forall>c\<in>set chs. c \<in> closed s) \<and> n \<notin> closed s \<longrightarrow>
          (\<exists>i<length chs. step (RecvClosed i (chs ! i)) s \<noteq> None
             \<or> (\<exists>v. step (EnvRecv i n v) s \<noteq> None)
             \<or> step (WgDone i 0) s \<noteq> None)
        \<or> step (WgWait (length chs) 0) s \<noteq> None
        \<or> step (Close (length chs) n) s \<noteq> None"
    using merge_progress[OF inv] by blast
  have 8: "moves sched \<le> 2 * length chs + 2 + length (fedall sched)"
    using merge_bound_exec[OF assms(1) e] by simp
  from c 1 2 3 4 5 6 7 8 show ?thesis by (simp add: merge_boot)
qed

text \<open>C3 on two inbound channels carrying 5 and 7.\<close>

theorem merge_closes_once_after_all_inputs_witness:
  "exec [EnvSend 0 0 5, EnvRecv 0 2 5, EnvSend 1 1 7, EnvClose 0, RecvClosed 0 0, EnvRecv 1 2 7,
        WgDone 0 0, EnvClose 1, RecvClosed 1 1, WgDone 1 0, WgWait 2 0, Close 2 2]
      (snd (merge 0 [0, 1] (make_chans 2 boot)))
     = Some \<lparr>pool = [Exited, Exited, Exited], nchans = 3, closed = {2, 1, 0}, nctxs = 0,
         cancelled = {}, wgs = [0], crashed = None\<rparr>
   \<and> (0::nat) < 2 \<and> (1::nat) < 2
   \<and> EnvClose (fst (merge 0 [0, 1] (make_chans 2 boot)))
       \<notin> set [EnvSend 0 0 5, EnvRecv 0 2 5, EnvSend 1 1 7, EnvClose 0, RecvClosed 0 0, EnvRecv 1 2 7,
        WgDone 0 0, EnvClose 1, RecvClosed 1 1, WgDone 1 0, WgWait 2 0, Close 2 2]
   \<and> closes (fst (merge 0 [0, 1] (make_chans 2 boot)))
        [EnvSend 0 0 5, EnvRecv 0 2 5, EnvSend 1 1 7, EnvClose 0, RecvClosed 0 0, EnvRecv 1 2 7,
        WgDone 0 0, EnvClose 1, RecvClosed 1 1, WgDone 1 0, WgWait 2 0, Close 2 2] = 1
   \<and> wgs (snd (merge 0 [0, 1] (make_chans 2 boot))) = [2]"
proof -
  have h: "\<forall>c\<in>set [0, 1]. c < (2::nat)" by simp
  have e: "exec [EnvSend 0 0 5, EnvRecv 0 2 5, EnvSend 1 1 7, EnvClose 0, RecvClosed 0 0, EnvRecv 1 2 7,
        WgDone 0 0, EnvClose 1, RecvClosed 1 1, WgDone 1 0, WgWait 2 0, Close 2 2]
      (snd (merge 0 [0, 1] (make_chans 2 boot)))
     = Some \<lparr>pool = [Exited, Exited, Exited], nchans = 3, closed = {2, 1, 0}, nctxs = 0,
         cancelled = {}, wgs = [0], crashed = None\<rparr>"
    by (simp add: merge_boot step_def offer_def upd_def)
  have n: "EnvClose (fst (merge 0 [0, 1] (make_chans 2 boot)))
       \<notin> set [EnvSend 0 0 5, EnvRecv 0 2 5, EnvSend 1 1 7, EnvClose 0, RecvClosed 0 0, EnvRecv 1 2 7,
        WgDone 0 0, EnvClose 1, RecvClosed 1 1, WgDone 1 0, WgWait 2 0, Close 2 2]"
    by (simp add: merge_boot)
  from merge_closes_once_after_all_inputs[OF h e n] e n show ?thesis by (simp add: merge_boot)
qed

subsection \<open>No inbound channel\<close>

lemma merge_nil_boot:
  "merge x [] (make_chans n boot) =
     (n, \<lparr>pool = [WgWaiting 0 n], nchans = Suc n, closed = {}, nctxs = 0, cancelled = {},
          wgs = [0], crashed = None\<rparr>)"
  using merge_boot[of x "[]" n] by simp

definition merge_nil_inv :: "chan \<Rightarrow> event list \<Rightarrow> sys \<Rightarrow> bool" where
  "merge_nil_inv out sched s \<longleftrightarrow>
     crashed s = None \<and> wgs s = [0] \<and> recvd out sched = [] \<and>
     (pool s = [WgWaiting 0 out] \<and> out \<notin> closed s \<and> moves sched = 0 \<or>
      pool s = [ClosePending out] \<and> out \<notin> closed s \<and> moves sched = 1 \<or>
      pool s = [Exited] \<and> out \<in> closed s \<and> moves sched = 2)"

lemma merge_nil_inv_step:
  assumes "merge_nil_inv out sched s" "step e s = Some s'" "e \<noteq> EnvClose out"
  shows "merge_nil_inv out (sched @ [e]) s'"
proof -
  from assms(1) have c: "crashed s = None" "wgs s = [0]" "recvd out sched = []"
    by (auto simp: merge_nil_inv_def)
  from assms(2) c have f: "fire e s = Some s'" by (simp add: step_def)
  from assms(1) consider
      (wait) "pool s = [WgWaiting 0 out]" "out \<notin> closed s" "moves sched = 0"
    | (cl) "pool s = [ClosePending out]" "out \<notin> closed s" "moves sched = 1"
    | (ex) "pool s = [Exited]" "out \<in> closed s" "moves sched = 2"
    by (auto simp: merge_nil_inv_def)
  then show ?thesis
  proof cases
    case wait
    with f c assms(3) show ?thesis
      by (cases e; auto simp: offer_single recvd_append moves_snoc merge_nil_inv_def split: if_splits action.splits)
  next
    case cl
    with f c assms(3) show ?thesis
      by (cases e; auto simp: offer_single recvd_append moves_snoc merge_nil_inv_def split: if_splits action.splits)
  next
    case ex
    with f c assms(3) show ?thesis
      by (cases e; auto simp: offer_single recvd_append moves_snoc merge_nil_inv_def split: if_splits action.splits)
  qed
qed

lemma merge_nil_inv_exec:
  "exec sched (snd (merge x [] (make_chans n boot))) = Some s \<Longrightarrow> EnvClose n \<notin> set sched \<Longrightarrow>
   merge_nil_inv n sched s"
proof (induction sched arbitrary: s rule: rev_induct)
  case Nil
  then show ?case by (auto simp: merge_nil_boot merge_nil_inv_def moves_def)
next
  case (snoc e es)
  then show ?case by (auto simp: exec_snoc intro: merge_nil_inv_step)
qed

text \<open>
  Claim C10. In every run of \<^verbatim>\<open>merge(ctx)\<close> with no inbound channel, whatever contexts
  are cancelled and whenever: no panic occurs; the wait group starts at 0; the caller
  receives nothing from the outbound channel; the goroutine has returned exactly when
  the channel is closed; until then it is never blocked (\<^verbatim>\<open>wg.Wait()\<close> returns, the
  close runs); it takes at most two steps, and after the second the channel is closed;
  and after any cancellations the two steps can be taken.
\<close>

theorem merge_of_nothing_closes_at_once:
  assumes "exec sched (snd (merge x [] (make_chans n boot))) = Some s"
    and "EnvClose (fst (merge x [] (make_chans n boot))) \<notin> set sched"
  shows "crashed s = None
    \<and> wgs (snd (merge x [] (make_chans n boot))) = [0]
    \<and> recvd (fst (merge x [] (make_chans n boot))) sched = []
    \<and> (pool s = [Exited]) = (fst (merge x [] (make_chans n boot)) \<in> closed s)
    \<and> (pool s \<noteq> [Exited] \<longrightarrow>
          step (WgWait 0 0) s \<noteq> None \<or> step (Close 0 (fst (merge x [] (make_chans n boot)))) s \<noteq> None)
    \<and> moves sched \<le> 2
    \<and> (moves sched = 2 \<longrightarrow> fst (merge x [] (make_chans n boot)) \<in> closed s)
    \<and> (\<forall>ys. \<exists>t. exec (map EnvCancel ys @ [WgWait 0 0, Close 0 (fst (merge x [] (make_chans n boot)))])
                (snd (merge x [] (make_chans n boot))) = Some t
           \<and> pool t = [Exited] \<and> fst (merge x [] (make_chans n boot)) \<in> closed t \<and> crashed t = None)"
proof -
  have inv: "merge_nil_inv n sched s"
    using assms by (intro merge_nil_inv_exec) (simp_all add: merge_nil_boot)
  then have c: "crashed s = None" "wgs s = [0]" "recvd n sched = []"
    by (auto simp: merge_nil_inv_def)
  from inv have d:
     "pool s = [WgWaiting 0 n] \<and> n \<notin> closed s \<and> moves sched = 0 \<or>
      pool s = [ClosePending n] \<and> n \<notin> closed s \<and> moves sched = 1 \<or>
      pool s = [Exited] \<and> n \<in> closed s \<and> moves sched = 2"
    by (simp add: merge_nil_inv_def)
  have 1: "(pool s = [Exited]) = (n \<in> closed s)" using d by auto
  have 2: "pool s \<noteq> [Exited] \<longrightarrow> step (WgWait 0 0) s \<noteq> None \<or> step (Close 0 n) s \<noteq> None"
    using d c by (auto simp: step_def offer_single)
  have 3: "moves sched \<le> 2" "moves sched = 2 \<longrightarrow> n \<in> closed s" using d by auto
  have 4: "\<forall>ys. \<exists>t. exec (map EnvCancel ys @ [WgWait 0 0, Close 0 n])
                (snd (merge x [] (make_chans n boot))) = Some t
           \<and> pool t = [Exited] \<and> n \<in> closed t \<and> crashed t = None"
    by (simp add: exec_append merge_nil_boot cancel_run step_def offer_def upd_def)
  from c 1 2 3 4 show ?thesis by (simp add: merge_nil_boot)
qed

text \<open>C10 with the context cancelled first.\<close>

theorem merge_of_nothing_closes_at_once_witness:
  "exec [EnvCancel 0, WgWait 0 0, Close 0 3] (snd (merge 0 [] (make_chans 3 boot)))
     = Some \<lparr>pool = [Exited], nchans = 4, closed = {3}, nctxs = 0, cancelled = {0}, wgs = [0],
         crashed = None\<rparr>
   \<and> EnvClose (fst (merge 0 [] (make_chans 3 boot))) \<notin> set [EnvCancel 0, WgWait 0 0, Close 0 3]
   \<and> recvd (fst (merge 0 [] (make_chans 3 boot))) [EnvCancel 0, WgWait 0 0, Close 0 3] = []
   \<and> moves [EnvCancel 0, WgWait 0 0, Close 0 3] \<le> 2"
proof -
  have e: "exec [EnvCancel 0, WgWait 0 0, Close 0 3] (snd (merge 0 [] (make_chans 3 boot)))
     = Some \<lparr>pool = [Exited], nchans = 4, closed = {3}, nctxs = 0, cancelled = {0}, wgs = [0],
         crashed = None\<rparr>"
    by (simp add: merge_nil_boot step_def offer_def upd_def)
  have n: "EnvClose (fst (merge 0 [] (make_chans 3 boot))) \<notin> set [EnvCancel 0, WgWait 0 0, Close 0 3]"
    by (simp add: merge_nil_boot)
  from merge_of_nothing_closes_at_once[OF e n] e n show ?thesis by (simp add: merge_nil_boot)
qed

end
